theory Spec2Isabelle
  imports Main "HOL-Library.Sublist"
begin

section \<open>Strings as the parser reads them\<close>

text \<open>
  A Python string is a sequence of code points. The model reads a \<^typ>\<open>char\<close> as the
  code point of the same number, so it covers the texts whose code points are below 256.
  The helpers below are the string methods and the regular-expression character classes
  that \<^verbatim>\<open>parser.py\<close> uses.
\<close>

definition NL :: char where
  "NL = CHR 0x0A"

text \<open>\<^verbatim>\<open>str.isspace\<close> and the class \<^verbatim>\<open>\s\<close>, below code point 256.\<close>

definition is_space :: "char \<Rightarrow> bool" where
  "is_space c = ((of_char c :: nat) \<in> {9, 10, 11, 12, 13, 28, 29, 30, 31, 32, 133, 160})"

text \<open>The class \<^verbatim>\<open>\d\<close>, below code point 256.\<close>

definition is_digit :: "char \<Rightarrow> bool" where
  "is_digit c = (48 \<le> (of_char c :: nat) \<and> (of_char c :: nat) \<le> 57)"

definition strip :: "string \<Rightarrow> string" where
  "strip s = rev (dropWhile is_space (rev (dropWhile is_space s)))"

definition startswith :: "string \<Rightarrow> string \<Rightarrow> bool" where
  "startswith s p = (take (length p) s = p)"

definition endswith :: "string \<Rightarrow> string \<Rightarrow> bool" where
  "endswith s p = (length p \<le> length s \<and> drop (length s - length p) s = p)"

text \<open>\<^verbatim>\<open>s.split(c)\<close> for a one-character separator: never the empty list.\<close>

fun split_on :: "char \<Rightarrow> string \<Rightarrow> string list" where
  "split_on c [] = [[]]"
| "split_on c (x # xs) =
     (if x = c then [] # split_on c xs
      else (case split_on c xs of
              [] \<Rightarrow> [[x]]
            | w # ws \<Rightarrow> (x # w) # ws))"

text \<open>\<^verbatim>\<open>"\n".join(xs)\<close>.\<close>

fun join_nl :: "string list \<Rightarrow> string" where
  "join_nl [] = []"
| "join_nl [x] = x"
| "join_nl (x # y # ys) = x @ NL # join_nl (y # ys)"

text \<open>\<^verbatim>\<open>str.lower\<close>, below code point 256.\<close>

definition lower_char :: "char \<Rightarrow> char" where
  "lower_char c =
     (let n = (of_char c :: nat)
      in if (65 \<le> n \<and> n \<le> 90) \<or> (192 \<le> n \<and> n \<le> 222 \<and> n \<noteq> 215)
         then char_of (n + 32) else c)"

definition lower :: "string \<Rightarrow> string" where
  "lower s = map lower_char s"

section \<open>Blocks and text runs\<close>

text \<open>
  A text run is the dictionary \<^verbatim>\<open>{"text_run": {"content": ..., "text_element_style": {...}}}\<close>.
  The style dictionary is kept as the list of its entries; a run without the key
  \<^verbatim>\<open>text_element_style\<close> has the empty list.
\<close>

datatype style = Bold | InlineCode | Italic | Link string

record text_run =
  content :: string
  text_element_style :: "style list"

definition plain_run :: "string \<Rightarrow> text_run" where
  "plain_run s = \<lparr>content = s, text_element_style = []\<rparr>"

definition styled_run :: "string \<Rightarrow> style \<Rightarrow> text_run" where
  "styled_run s st = \<lparr>content = s, text_element_style = [st]\<rparr>"

text \<open>
  The blocks the parser builds. \<open>Heading level elements\<close> has block type \<open>2 + level\<close>;
  \<open>Code code language\<close> carries the numeric language code; the two placeholders are
  the dictionaries whose block type is the marker string.
\<close>

datatype block =
    Heading nat "text_run list"
  | TextBlock "text_run list"
  | Code string nat
  | Quote "text_run list"
  | Bullet "text_run list"
  | Ordered "text_run list"
  | Divider
  | ImagePlaceholder string bool
  | TablePlaceholder "string list list" nat nat

fun is_image_placeholder :: "block \<Rightarrow> bool" where
  "is_image_placeholder (ImagePlaceholder p u) = True"
| "is_image_placeholder b = False"

fun is_table_placeholder :: "block \<Rightarrow> bool" where
  "is_table_placeholder (TablePlaceholder d r c) = True"
| "is_table_placeholder b = False"

definition is_placeholder :: "block \<Rightarrow> bool" where
  "is_placeholder b = (is_image_placeholder b \<or> is_table_placeholder b)"

section \<open>Inline formats\<close>

text \<open>
  \<^verbatim>\<open>_parse_inline_formats\<close> scans the text with the pattern
  \<^verbatim>\<open>(\*\*(.+?)\*\*|__(.+?)__|`(.+?)`|\*(.+?)\*|_(.+?)_|\[(.+?)\]\((.+?)\))\<close>.
  \<open>lazy_plus d s\<close> is \<^verbatim>\<open>(.+?)\<close> followed by the closing delimiter \<open>d\<close>, tried at
  the start of \<open>s\<close>: the shortest non-empty body without a newline after which \<open>d\<close>
  stands. It returns the body and what follows the delimiter.
\<close>

fun lazy_plus :: "string \<Rightarrow> string \<Rightarrow> (string \<times> string) option" where
  "lazy_plus d [] = None"
| "lazy_plus d (c # cs) =
     (if c = NL then None
      else if startswith cs d then Some ([c], drop (length d) cs)
      else (case lazy_plus d cs of
              None \<Rightarrow> None
            | Some (body, rest) \<Rightarrow> Some (c # body, rest)))"

text \<open>
  The link alternative after its opening bracket: the shortest non-empty text followed
  by \<^verbatim>\<open>](\<close>, a non-empty target and \<^verbatim>\<open>)\<close>; a text after which the target
  fails is extended, as the backtracking matcher does.
\<close>

fun link_body :: "string \<Rightarrow> (string \<times> string \<times> string) option" where
  "link_body [] = None"
| "link_body (c # cs) =
     (if c = NL then None
      else (case (if startswith cs '']('' then lazy_plus '')'' (drop 2 cs) else None) of
              Some (url, rest) \<Rightarrow> Some ([c], url, rest)
            | None \<Rightarrow>
                (case link_body cs of
                   None \<Rightarrow> None
                 | Some (txt, url, rest) \<Rightarrow> Some (c # txt, url, rest))))"

text \<open>
  One attempt of the pattern at the start of the text, the alternatives in the order
  of the pattern. The result is the element that the branch for the matched group
  appends, and the length of the match.
\<close>

definition match_at :: "string \<Rightarrow> (text_run \<times> nat) option" where
  "match_at s =
     (case (if startswith s ''**'' then lazy_plus ''**'' (drop 2 s) else None) of
        Some (body, rest) \<Rightarrow> Some (styled_run body Bold, length body + 4)
      | None \<Rightarrow>
     (case (if startswith s ''__'' then lazy_plus ''__'' (drop 2 s) else None) of
        Some (body, rest) \<Rightarrow> Some (styled_run body Bold, length body + 4)
      | None \<Rightarrow>
     (case (if startswith s ''`'' then lazy_plus ''`'' (drop 1 s) else None) of
        Some (body, rest) \<Rightarrow> Some (styled_run body InlineCode, length body + 2)
      | None \<Rightarrow>
     (case (if startswith s ''*'' then lazy_plus ''*'' (drop 1 s) else None) of
        Some (body, rest) \<Rightarrow> Some (styled_run body Italic, length body + 2)
      | None \<Rightarrow>
     (case (if startswith s ''_'' then lazy_plus ''_'' (drop 1 s) else None) of
        Some (body, rest) \<Rightarrow> Some (styled_run body Italic, length body + 2)
      | None \<Rightarrow>
     (case (if startswith s ''['' then link_body (drop 1 s) else None) of
        Some (txt, url, rest) \<Rightarrow>
          Some (styled_run txt (Link url), length txt + length url + 4)
      | None \<Rightarrow> None))))))"

text \<open>
  The loop over \<^verbatim>\<open>re.finditer\<close>: \<open>pending\<close> is the text since \<open>last_end\<close> that no
  match has covered yet. A match flushes it as a plain run and the scan goes on after
  the match; where nothing matches the scan moves one character on.
\<close>

definition flush_plain :: "string \<Rightarrow> text_run list" where
  "flush_plain pending = (if pending = [] then [] else [plain_run pending])"

fun scan_inline :: "string \<Rightarrow> string \<Rightarrow> text_run list" where
  "scan_inline pending [] = flush_plain pending"
| "scan_inline pending (c # cs) =
     (case match_at (c # cs) of
        Some (el, n) \<Rightarrow> flush_plain pending @ el # scan_inline [] (drop (n - 1) cs)
      | None \<Rightarrow> scan_inline (pending @ [c]) cs)"

definition parse_inline_formats :: "string \<Rightarrow> text_run list" where
  "parse_inline_formats text =
     (let elements = scan_inline [] text
      in if elements = [] then [plain_run text] else elements)"

definition create_text_elements :: "string \<Rightarrow> text_run list" where
  "create_text_elements text =
     (let parts = parse_inline_formats text
      in if parts = [] then [plain_run text] else parts)"

section \<open>The block constructors of the parser\<close>

definition create_heading_block :: "string \<Rightarrow> nat \<Rightarrow> block" where
  "create_heading_block text level = Heading level (create_text_elements text)"

definition create_text_block :: "string \<Rightarrow> block" where
  "create_text_block text = TextBlock (create_text_elements text)"

definition language_map :: "(string \<times> nat) list" where
  "language_map =
     [(''python'', 49), (''javascript'', 22), (''js'', 22), (''typescript'', 67),
      (''ts'', 67), (''java'', 21), (''go'', 18), (''c'', 7), (''cpp'', 9), (''c++'', 9),
      (''csharp'', 10), (''c#'', 10), (''ruby'', 54), (''php'', 46), (''swift'', 64),
      (''kotlin'', 27), (''rust'', 55), (''sql'', 61), (''shell'', 58), (''bash'', 58),
      (''json'', 23), (''xml'', 73), (''html'', 20), (''css'', 11), (''yaml'', 74),
      (''markdown'', 35), (''plain_text'', 47)]"

definition create_code_block :: "string \<Rightarrow> string \<Rightarrow> block" where
  "create_code_block code language =
     Code code (case map_of language_map (lower language) of
                  Some lang_code \<Rightarrow> lang_code
                | None \<Rightarrow> 47)"

definition create_quote_block :: "string \<Rightarrow> block" where
  "create_quote_block text = Quote (create_text_elements text)"

definition create_bullet_block :: "string \<Rightarrow> block" where
  "create_bullet_block text = Bullet (create_text_elements text)"

definition create_ordered_block :: "string \<Rightarrow> block" where
  "create_ordered_block text = Ordered (create_text_elements text)"

definition create_divider_block :: block where
  "create_divider_block = Divider"

text \<open>
  The parser object: the two pending lists (\<^verbatim>\<open>md_dir\<close> is not read by \<^verbatim>\<open>parse\<close>).
  The creators of the placeholders append to them, so they take and return the state.
\<close>

record parser_state =
  pending_images :: "(nat \<times> string \<times> bool) list"
  pending_tables :: "(nat \<times> string list list) list"

definition new_parser :: parser_state where
  "new_parser = \<lparr>pending_images = [], pending_tables = []\<rparr>"

text \<open>\<^verbatim>\<open>max(len(row) for row in table_data) if table_data else 0\<close>.\<close>

definition max_row_len :: "'a list list \<Rightarrow> nat" where
  "max_row_len table_data =
     (if table_data = [] then 0 else Max (set (map length table_data)))"

definition create_table_block ::
  "parser_state \<Rightarrow> string list list \<Rightarrow> nat \<Rightarrow> block \<times> parser_state" where
  "create_table_block st table_data block_index =
     (TablePlaceholder table_data (length table_data) (max_row_len table_data),
      st\<lparr>pending_tables := pending_tables st @ [(block_index, table_data)]\<rparr>)"

definition create_image_block ::
  "parser_state \<Rightarrow> string \<Rightarrow> string \<Rightarrow> nat \<Rightarrow> block \<times> parser_state" where
  "create_image_block st img_path alt_text block_index =
     (let is_url = (startswith img_path ''http://'' \<or> startswith img_path ''https://'')
      in (ImagePlaceholder img_path is_url,
          st\<lparr>pending_images := pending_images st @ [(block_index, img_path, is_url)]\<rparr>))"

section \<open>Tables\<close>

definition parse_table_row :: "string \<Rightarrow> string list" where
  "parse_table_row line0 =
     (let line1 = strip line0;
          line2 = (if startswith line1 ''|'' then drop 1 line1 else line1);
          line3 = (if endswith line2 ''|'' then butlast line2 else line2)
      in map strip (split_on (CHR ''|'') line3))"

text \<open>\<^verbatim>\<open>re.match(r"^[\-:]+$", cell.strip())\<close>.\<close>

definition is_separator_cell :: "string \<Rightarrow> bool" where
  "is_separator_cell cell =
     (strip cell \<noteq> [] \<and> list_all (\<lambda>c. c = CHR ''-'' \<or> c = CHR '':'') (strip cell))"

definition is_separator_row :: "string list \<Rightarrow> bool" where
  "is_separator_row cells = list_all is_separator_cell cells"

text \<open>
  The loop of \<^verbatim>\<open>_parse_table\<close> over the lines from \<^verbatim>\<open>start_idx\<close> on: the rows kept and
  the number of lines read before the loop stops.
\<close>

fun parse_table_from :: "string list \<Rightarrow> string list list \<times> nat" where
  "parse_table_from [] = ([], 0)"
| "parse_table_from (l # ls) =
     (let line = strip l
      in if \<not> startswith line ''|'' then ([], 0)
         else (let cells = parse_table_row line
               in if cells = [] then ([], 0)
                  else if is_separator_row cells
                  then (case parse_table_from ls of (rows, k) \<Rightarrow> (rows, Suc k))
                  else (case parse_table_from ls of (rows, k) \<Rightarrow> (cells # rows, Suc k))))"

definition parse_table :: "string list \<Rightarrow> nat \<Rightarrow> string list list \<times> nat" where
  "parse_table lines start_idx = parse_table_from (drop start_idx lines)"

section \<open>Images\<close>

text \<open>
  \<^verbatim>\<open>re.match(r"!\[(.*?)\]\((.*?)\)", line)\<close>. \<open>lazy_star d s\<close> is \<^verbatim>\<open>(.*?)\<close> followed
  by \<open>d\<close>; \<open>image_body\<close> is the pattern after \<^verbatim>\<open>![\<close> and returns the two groups.
\<close>

fun lazy_star :: "string \<Rightarrow> string \<Rightarrow> (string \<times> string) option" where
  "lazy_star d [] = (if startswith [] d then Some ([], []) else None)"
| "lazy_star d (c # cs) =
     (if startswith (c # cs) d then Some ([], drop (length d) (c # cs))
      else if c = NL then None
      else (case lazy_star d cs of
              None \<Rightarrow> None
            | Some (body, rest) \<Rightarrow> Some (c # body, rest)))"

fun image_body :: "string \<Rightarrow> (string \<times> string) option" where
  "image_body [] = None"
| "image_body (c # cs) =
     (case (if startswith (c # cs) '']('' then lazy_star '')'' (drop 1 cs) else None) of
        Some (path, rest) \<Rightarrow> Some ([], path)
      | None \<Rightarrow>
          (if c = NL then None
           else (case image_body cs of
                   None \<Rightarrow> None
                 | Some (alt, path) \<Rightarrow> Some (c # alt, path))))"

definition image_match :: "string \<Rightarrow> (string \<times> string) option" where
  "image_match line = (if startswith line ''!['' then image_body (drop 2 line) else None)"

section \<open>The main loop of the parser\<close>

text \<open>The tests of the loop on the current line.\<close>

definition heading_level :: "string \<Rightarrow> nat" where
  "heading_level line = length (takeWhile (\<lambda>c. c = CHR ''#'') line)"

definition is_fence :: "string \<Rightarrow> bool" where
  "is_fence line = startswith line ''```''"

definition is_table_start :: "string \<Rightarrow> bool" where
  "is_table_start line = (startswith (strip line) ''|'' \<and> CHR ''|'' \<in> set (drop 1 line))"

text \<open>\<^verbatim>\<open>re.match(r"^[\-\*\+]\s", line)\<close> and \<^verbatim>\<open>re.match(r"^\d+\.\s", line)\<close>.\<close>

definition is_bullet :: "string \<Rightarrow> bool" where
  "is_bullet line =
     (case line of
        a # b # _ \<Rightarrow> (a = CHR ''-'' \<or> a = CHR ''*'' \<or> a = CHR ''+'') \<and> is_space b
      | _ \<Rightarrow> False)"

definition is_ordered :: "string \<Rightarrow> bool" where
  "is_ordered line =
     (takeWhile is_digit line \<noteq> [] \<and>
      (case dropWhile is_digit line of
         a # b # _ \<Rightarrow> a = CHR ''.'' \<and> is_space b
       | _ \<Rightarrow> False))"

definition strip_ordered :: "string \<Rightarrow> string" where
  "strip_ordered line = drop (length (takeWhile is_digit line) + 2) line"

text \<open>\<^verbatim>\<open>re.match(r"^[\-\*\_]{3,}$", line.strip())\<close>.\<close>

definition is_divider :: "string \<Rightarrow> bool" where
  "is_divider line =
     (3 \<le> length (strip line) \<and>
      list_all (\<lambda>c. c = CHR ''-'' \<or> c = CHR ''*'' \<or> c = CHR ''_'') (strip line))"

text \<open>
  One pass through the body of the \<^verbatim>\<open>while\<close> loop, at the lines from \<^verbatim>\<open>i\<close> on, with
  \<open>n = len(blocks)\<close>: the blocks it appends, the number of lines it moves \<^verbatim>\<open>i\<close> by, and
  the parser state after it.
\<close>

fun parse_step :: "string list \<Rightarrow> nat \<Rightarrow> parser_state \<Rightarrow> block list \<times> nat \<times> parser_state" where
  "parse_step [] n st = ([], 0, st)"
| "parse_step (line # rest) n st =
     (if startswith line ''#'' then
        (let level = heading_level line;
             text = strip (drop level line)
         in ([create_heading_block text (min level 9)], 1, st))
      else if is_fence line then
        (let language = (if strip (drop 3 line) = [] then ''plain_text'' else strip (drop 3 line));
             code_lines = takeWhile (\<lambda>l. \<not> is_fence l) rest
         in ([create_code_block (join_nl code_lines) language], length code_lines + 2, st))
      else if is_table_start line \<and> fst (parse_table (line # rest) 0) \<noteq> [] then
        (case parse_table (line # rest) 0 of
           (table_data, consumed) \<Rightarrow>
             (case create_table_block st table_data n of
                (b, st') \<Rightarrow> ([b], consumed, st')))
      else
        (case image_match line of
           Some (alt_text, img_path) \<Rightarrow>
             (case create_image_block st img_path alt_text n of
                (b, st') \<Rightarrow> ([b], 1, st'))
         | None \<Rightarrow>
             if startswith line ''>'' then
               (let quote_lines = takeWhile (\<lambda>l. startswith l ''>'') (line # rest)
                in ([create_quote_block (join_nl (map (\<lambda>l. strip (drop 1 l)) quote_lines))],
                    length quote_lines, st))
             else if is_bullet line then
               (let list_items = takeWhile is_bullet (line # rest)
                in (map (\<lambda>l. create_bullet_block (drop 2 l)) list_items, length list_items, st))
             else if is_ordered line then
               (let list_items = takeWhile is_ordered (line # rest)
                in (map (\<lambda>l. create_ordered_block (strip_ordered l)) list_items,
                    length list_items, st))
             else if is_divider line then ([create_divider_block], 1, st)
             else if strip line \<noteq> [] then ([create_text_block line], 1, st)
             else ([], 1, st)))"

lemma parse_table_from_consumed:
  "fst (parse_table_from ls) \<noteq> [] \<Longrightarrow> 0 < snd (parse_table_from ls)"
  by (cases ls) (auto simp: Let_def split: if_splits prod.splits)

lemma parse_step_consumed:
  "ls \<noteq> [] \<Longrightarrow> parse_step ls n st = (new, consumed, st') \<Longrightarrow> 0 < consumed"
proof (cases ls)
  case Nil
  assume "ls \<noteq> []"
  with Nil show ?thesis by simp
next
  case (Cons line rest)
  assume step: "parse_step ls n st = (new, consumed, st')"
  have tbl: "fst (parse_table_from (line # rest)) \<noteq> [] \<Longrightarrow>
             0 < snd (parse_table_from (line # rest))"
    by (rule parse_table_from_consumed)
  from step tbl show ?thesis
    unfolding Cons
    by (auto simp: Let_def parse_table_def create_table_block_def create_image_block_def
             split: if_splits option.splits prod.splits)
qed

text \<open>
  The \<^verbatim>\<open>while i < len(lines)\<close> loop, on the lines from \<^verbatim>\<open>i\<close> on, with the blocks built
  so far and the parser state.
\<close>

function parse_loop :: "string list \<Rightarrow> block list \<Rightarrow> parser_state \<Rightarrow> block list \<times> parser_state" where
  "parse_loop ls blocks st =
     (if ls = [] then (blocks, st)
      else (case parse_step ls (length blocks) st of
              (new, consumed, st') \<Rightarrow> parse_loop (drop consumed ls) (blocks @ new) st'))"
  by pat_completeness auto
termination
proof (relation "measure (\<lambda>(ls, blocks, st). length ls)", goal_cases)
  case 1
  show ?case by simp
next
  case (2 ls blocks st new y consumed st')
  then have "parse_step ls (length blocks) st = (new, consumed, st')" by simp
  with \<open>ls \<noteq> []\<close> have "0 < consumed" by (rule parse_step_consumed)
  with \<open>ls \<noteq> []\<close> show ?case by simp
qed

declare parse_loop.simps [simp del]

text \<open>
  \<^verbatim>\<open>parse\<close> on a parser in state \<open>st\<close>: the returned blocks and the state of the parser
  afterwards. \<open>parse_new\<close> is the call as the writer makes it, on a parser just built.
\<close>

definition parse :: "parser_state \<Rightarrow> string \<Rightarrow> block list \<times> parser_state" where
  "parse st md = parse_loop (split_on NL md) [] st"

definition parse_new :: "string \<Rightarrow> block list \<times> parser_state" where
  "parse_new md = parse new_parser md"

section \<open>Properties of the inline formats\<close>

lemma lazy_plus_closes:
  "x \<noteq> [] \<Longrightarrow> NL \<notin> set x \<Longrightarrow> \<exists>body rest. lazy_plus d (x @ d @ r) = Some (body, rest)"
proof (induction x)
  case Nil
  then show ?case by simp
next
  case (Cons c cs)
  show ?case
  proof (cases "cs = []")
    case True
    with Cons.prems show ?thesis by (simp add: startswith_def)
  next
    case False
    with Cons obtain body rest where "lazy_plus d (cs @ d @ r) = Some (body, rest)"
      by auto
    with Cons.prems show ?thesis by auto
  qed
qed

lemma lazy_plus_exact:
  "x \<noteq> [] \<Longrightarrow> NL \<notin> set x \<Longrightarrow> CHR ''*'' \<notin> set x \<Longrightarrow>
   lazy_plus ''**'' (x @ ''**'') = Some (x, [])"
proof (induction x)
  case Nil
  then show ?case by simp
next
  case (Cons c cs)
  show ?case
  proof (cases cs)
    case Nil
    with Cons.prems show ?thesis by (simp add: startswith_def)
  next
    case (Cons e es)
    with Cons.IH Cons.prems have "lazy_plus ''**'' (cs @ ''**'') = Some (cs, [])"
      by auto
    moreover from Cons Cons.prems have "\<not> startswith (cs @ ''**'') ''**''"
      by (auto simp: startswith_def)
    ultimately show ?thesis using Cons.prems by auto
  qed
qed

lemma match_at_styled:
  "match_at s = Some (el, n) \<Longrightarrow> length (text_element_style el) = 1"
  by (auto simp: match_at_def styled_run_def split: option.splits if_splits)

lemma scan_inline_styles:
  "\<forall>r \<in> set (scan_inline pending t). length (text_element_style r) \<le> 1"
proof (induction pending t rule: scan_inline.induct)
  case (1 pending)
  then show ?case by (simp add: flush_plain_def plain_run_def)
next
  case (2 pending c cs)
  show ?case
  proof (cases "match_at (c # cs)")
    case None
    with 2 show ?thesis by simp
  next
    case (Some a)
    obtain el n where a: "a = (el, n)" by (cases a)
    from Some a have "length (text_element_style el) = 1" by (auto dest: match_at_styled)
    with 2 Some a show ?thesis by (auto simp: flush_plain_def plain_run_def)
  qed
qed

lemma parse_inline_formats_styles:
  "\<forall>r \<in> set (parse_inline_formats t). length (text_element_style r) \<le> 1"
  using scan_inline_styles [of "[]" t]
  by (auto simp: parse_inline_formats_def Let_def plain_run_def)

lemma bold_first:
  assumes "x \<noteq> []" "NL \<notin> set x"
  shows "\<exists>body rest. parse_inline_formats (''**'' @ x @ ''**'') = styled_run body Bold # rest"
proof -
  from assms obtain body rest where "lazy_plus ''**'' (x @ ''**'' @ []) = Some (body, rest)"
    using lazy_plus_closes by blast
  then have "match_at (''**'' @ x @ ''**'') = Some (styled_run body Bold, length body + 4)"
    by (simp add: match_at_def startswith_def)
  then show ?thesis
    by (auto simp: parse_inline_formats_def Let_def flush_plain_def)
qed

lemma bold_exact:
  assumes "x \<noteq> []" "NL \<notin> set x" "CHR ''*'' \<notin> set x"
  shows "parse_inline_formats (''**'' @ x @ ''**'') = [styled_run x Bold]"
proof -
  from assms have "lazy_plus ''**'' (x @ ''**'') = Some (x, [])"
    by (rule lazy_plus_exact)
  then have "match_at (''**'' @ x @ ''**'') = Some (styled_run x Bold, length x + 4)"
    by (simp add: match_at_def startswith_def)
  then show ?thesis
    by (simp add: parse_inline_formats_def Let_def flush_plain_def)
qed

lemmas inline_eval = parse_inline_formats_def match_at_def startswith_def NL_def flush_plain_def

text \<open>
  Claim C5. Each of the four constructs, spanning the whole text, gives exactly one run
  with the one style of the construct and no plain run beside it. The bold alternative
  stands before the italic one in the pattern: a text \<^verbatim>\<open>**x**\<close> with a non-empty \<open>x\<close>
  on one line opens with a bold run, and is the single bold run of \<open>x\<close> when \<open>x\<close> has no
  asterisk. Every run of every text carries at most one style.
\<close>

theorem inline_formats_single_style:
  "parse_inline_formats ''**bold**'' = [styled_run ''bold'' Bold] \<and>
   parse_inline_formats ''`code`'' = [styled_run ''code'' InlineCode] \<and>
   parse_inline_formats ''*italic*'' = [styled_run ''italic'' Italic] \<and>
   parse_inline_formats ''[text](url)'' = [styled_run ''text'' (Link ''url'')] \<and>
   (x \<noteq> [] \<and> NL \<notin> set x \<longrightarrow>
      (\<exists>body rest. parse_inline_formats (''**'' @ x @ ''**'') = styled_run body Bold # rest)) \<and>
   (x \<noteq> [] \<and> NL \<notin> set x \<and> CHR ''*'' \<notin> set x \<longrightarrow>
      parse_inline_formats (''**'' @ x @ ''**'') = [styled_run x Bold]) \<and>
   (\<forall>r \<in> set (parse_inline_formats t). length (text_element_style r) \<le> 1)"
proof -
  have 1: "parse_inline_formats ''**bold**'' = [styled_run ''bold'' Bold]"
    by (simp add: inline_eval)
  have 2: "parse_inline_formats ''`code`'' = [styled_run ''code'' InlineCode]"
    by (simp add: inline_eval)
  have 3: "parse_inline_formats ''*italic*'' = [styled_run ''italic'' Italic]"
    by (simp add: inline_eval)
  have 4: "parse_inline_formats ''[text](url)'' = [styled_run ''text'' (Link ''url'')]"
    by (simp add: inline_eval)
  from 1 2 3 4 bold_first bold_exact parse_inline_formats_styles show ?thesis
    by blast
qed

theorem inline_formats_single_style_witness:
  "parse_inline_formats (''**'' @ ''a_b'' @ ''**'') = [styled_run ''a_b'' Bold] \<and>
   list_all (\<lambda>r. length (text_element_style r) \<le> 1)
     (parse_inline_formats ''x **b** *i* `c` [t](u) _'')"
  using inline_formats_single_style [of "''a_b''" "''x **b** *i* `c` [t](u) _''"]
  by (simp add: NL_def list_all_iff)

section \<open>Properties of the main loop\<close>

lemma parse_loop_Nil: "parse_loop [] blocks st = (blocks, st)"
  by (simp add: parse_loop.simps)

lemma parse_loop_step:
  "ls \<noteq> [] \<Longrightarrow> parse_step ls (length blocks) st = (new, k, st') \<Longrightarrow>
   parse_loop ls blocks st = parse_loop (drop k ls) (blocks @ new) st'"
  by (subst parse_loop.simps) simp

lemma fence_not_heading: "is_fence line \<Longrightarrow> \<not> startswith line ''#''"
  by (cases line) (auto simp: is_fence_def startswith_def)

lemma parse_step_cases [consumes 1, case_names heading code table image quote bullet ordered divider para blank]:
  assumes "parse_step (line # rest) n st = (new, k, st')"
  obtains
    (heading) "startswith line ''#''"
      "new = [create_heading_block (strip (drop (heading_level line) line)) (min (heading_level line) 9)]"
      "k = 1" "st' = st"
  | (code) "\<not> startswith line ''#''" "is_fence line"
      "new = [create_code_block (join_nl (takeWhile (\<lambda>l. \<not> is_fence l) rest))
               (if strip (drop 3 line) = [] then ''plain_text'' else strip (drop 3 line))]"
      "k = length (takeWhile (\<lambda>l. \<not> is_fence l) rest) + 2" "st' = st"
  | (table) table_data where "\<not> startswith line ''#''" "\<not> is_fence line"
      "table_data = fst (parse_table_from (line # rest))" "table_data \<noteq> []"
      "new = [TablePlaceholder table_data (length table_data) (max_row_len table_data)]"
      "k = snd (parse_table_from (line # rest))"
      "st' = st\<lparr>pending_tables := pending_tables st @ [(n, table_data)]\<rparr>"
  | (image) img_path is_url where "\<not> startswith line ''#''" "\<not> is_fence line"
      "new = [ImagePlaceholder img_path is_url]" "k = 1"
      "st' = st\<lparr>pending_images := pending_images st @ [(n, img_path, is_url)]\<rparr>"
  | (quote) "\<not> startswith line ''#''" "\<not> is_fence line" "startswith line ''>''"
      "new = [create_quote_block (join_nl (map (\<lambda>l. strip (drop 1 l))
                (takeWhile (\<lambda>l. startswith l ''>'') (line # rest))))]"
      "k = length (takeWhile (\<lambda>l. startswith l ''>'') (line # rest))" "st' = st"
  | (bullet) "\<not> startswith line ''#''" "\<not> is_fence line" "is_bullet line"
      "new = map (\<lambda>l. create_bullet_block (drop 2 l)) (takeWhile is_bullet (line # rest))"
      "k = length (takeWhile is_bullet (line # rest))" "st' = st"
  | (ordered) "\<not> startswith line ''#''" "\<not> is_fence line" "is_ordered line"
      "new = map (\<lambda>l. create_ordered_block (strip_ordered l)) (takeWhile is_ordered (line # rest))"
      "k = length (takeWhile is_ordered (line # rest))" "st' = st"
  | (divider) "\<not> startswith line ''#''" "\<not> is_fence line"
      "new = [create_divider_block]" "k = 1" "st' = st"
  | (para) "\<not> startswith line ''#''" "\<not> is_fence line"
      "new = [create_text_block line]" "k = 1" "st' = st"
  | (blank) "\<not> startswith line ''#''" "\<not> is_fence line"
      "new = []" "k = 1" "st' = st"
proof (cases "startswith line ''#''")
  case True
  with assms show ?thesis by (intro heading) (simp_all add: Let_def)
next
  case nh: False
  show ?thesis
  proof (cases "is_fence line")
    case True
    with nh assms show ?thesis by (intro code) (simp_all add: Let_def)
  next
    case nf: False
    show ?thesis
    proof (cases "is_table_start line \<and> fst (parse_table (line # rest) 0) \<noteq> []")
      case True
      with nh nf assms show ?thesis
        by (intro table [of "fst (parse_table_from (line # rest))"])
           (simp_all add: parse_table_def create_table_block_def split: prod.splits)
    next
      case nt: False
      from assms have img_eq:
        "(case image_match line of
           Some (alt_text, img_path) \<Rightarrow>
             (case create_image_block st img_path alt_text n of
                (b, st') \<Rightarrow> ([b], 1, st'))
         | None \<Rightarrow>
             if startswith line ''>'' then
               (let quote_lines = takeWhile (\<lambda>l. startswith l ''>'') (line # rest)
                in ([create_quote_block (join_nl (map (\<lambda>l. strip (drop 1 l)) quote_lines))],
                    length quote_lines, st))
             else if is_bullet line then
               (let list_items = takeWhile is_bullet (line # rest)
                in (map (\<lambda>l. create_bullet_block (drop 2 l)) list_items, length list_items, st))
             else if is_ordered line then
               (let list_items = takeWhile is_ordered (line # rest)
                in (map (\<lambda>l. create_ordered_block (strip_ordered l)) list_items,
                    length list_items, st))
             else if is_divider line then ([create_divider_block], 1, st)
             else if strip line \<noteq> [] then ([create_text_block line], 1, st)
             else ([], 1, st)) = (new, k, st')"
        by (simp only: parse_step.simps if_not_P [OF nh] if_not_P [OF nf] if_not_P [OF nt])
      show ?thesis
      proof (cases "image_match line")
        case (Some a)
        obtain alt_text img_path where a: "a = (alt_text, img_path)" by (cases a)
        from nh nf Some a img_eq show ?thesis
          by (intro image [of img_path
                "startswith img_path ''http://'' \<or> startswith img_path ''https://''"])
             (simp_all add: create_image_block_def Let_def)
      next
        case ni: None
        from ni img_eq have rest_eq:
          "(if startswith line ''>'' then
               (let quote_lines = takeWhile (\<lambda>l. startswith l ''>'') (line # rest)
                in ([create_quote_block (join_nl (map (\<lambda>l. strip (drop 1 l)) quote_lines))],
                    length quote_lines, st))
             else if is_bullet line then
               (let list_items = takeWhile is_bullet (line # rest)
                in (map (\<lambda>l. create_bullet_block (drop 2 l)) list_items, length list_items, st))
             else if is_ordered line then
               (let list_items = takeWhile is_ordered (line # rest)
                in (map (\<lambda>l. create_ordered_block (strip_ordered l)) list_items,
                    length list_items, st))
             else if is_divider line then ([create_divider_block], 1, st)
             else if strip line \<noteq> [] then ([create_text_block line], 1, st)
             else ([], 1, st)) = (new, k, st')"
          by simp
        show ?thesis
        proof (cases "startswith line ''>''")
          case True
          with rest_eq nh nf show ?thesis by (intro quote) (simp_all add: Let_def)
        next
          case nq: False
          show ?thesis
          proof (cases "is_bullet line")
            case True
            with rest_eq nq nh nf show ?thesis by (intro bullet) (simp_all add: Let_def)
          next
            case nb: False
            show ?thesis
            proof (cases "is_ordered line")
              case True
              with rest_eq nq nb nh nf show ?thesis by (intro ordered) (simp_all add: Let_def)
            next
              case no: False
              show ?thesis
              proof (cases "is_divider line")
                case True
                with rest_eq nq nb no nh nf show ?thesis by (intro divider) simp_all
              next
                case nd: False
                show ?thesis
                proof (cases "strip line \<noteq> []")
                  case True
                  with rest_eq nq nb no nd nh nf show ?thesis by (intro para) simp_all
                next
                  case False
                  with rest_eq nq nb no nd nh nf show ?thesis by (intro blank) simp_all
                qed
              qed
            qed
          qed
        qed
      qed
    qed
  qed
qed

section \<open>Fenced code blocks\<close>

lemma parse_step_fence:
  assumes "is_fence line"
  shows "parse_step (line # rest) n st =
     ([create_code_block (join_nl (takeWhile (\<lambda>l. \<not> is_fence l) rest))
         (if strip (drop 3 line) = [] then ''plain_text'' else strip (drop 3 line))],
      length (takeWhile (\<lambda>l. \<not> is_fence l) rest) + 2, st)"
  using assms fence_not_heading [OF assms] by (simp add: Let_def)

lemma split_on_append:
  "c \<notin> set x \<Longrightarrow> split_on c (x @ c # r) = x # split_on c r"
  by (induction x) auto

lemma split_on_no_sep: "c \<notin> set x \<Longrightarrow> split_on c x = [x]"
  by (induction x) auto

lemma split_join_nl:
  "ls \<noteq> [] \<Longrightarrow> \<forall>l\<in>set ls. NL \<notin> set l \<Longrightarrow> split_on NL (join_nl ls) = ls"
proof (induction ls rule: join_nl.induct)
  case 1
  then show ?case by simp
next
  case (2 x)
  then show ?case by (simp add: split_on_no_sep)
next
  case (3 x y ys)
  then show ?case by (simp add: split_on_append)
qed

lemma plain_text_code: "create_code_block code ''plain_text'' = Code code 47"
  by (simp add: create_code_block_def language_map_def lower_def lower_char_def)

text \<open>
  Claim C3. When the loop stands at an opening fence and no later line is a fence, all
  the remaining lines become the content of one code block, joined by newlines (splitting
  the content at the newlines gives the lines back), nothing else is emitted and the loop
  ends. A fence without a language tag gives the code of \<^verbatim>\<open>plain_text\<close>, 47.
\<close>

theorem unclosed_fence_runs_to_end:
  assumes "is_fence line" and "\<forall>l\<in>set rest. \<not> is_fence l"
  shows "\<exists>lang. parse_loop (line # rest) blocks st = (blocks @ [Code (join_nl rest) lang], st) \<and>
           (strip (drop 3 line) = [] \<longrightarrow> lang = 47) \<and>
           map_of language_map ''plain_text'' = Some 47 \<and>
           (rest \<noteq> [] \<and> (\<forall>l\<in>set rest. NL \<notin> set l) \<longrightarrow> split_on NL (join_nl rest) = rest)"
proof -
  let ?language = "if strip (drop 3 line) = [] then ''plain_text'' else strip (drop 3 line)"
  from assms(2) have tw: "takeWhile (\<lambda>l. \<not> is_fence l) rest = rest"
    by (simp add: takeWhile_eq_all_conv)
  have "parse_step (line # rest) (length blocks) st =
          ([create_code_block (join_nl rest) ?language], length rest + 2, st)"
    using parse_step_fence [OF assms(1), of rest "length blocks" st] tw by simp
  then have "parse_loop (line # rest) blocks st =
          parse_loop (drop (length rest + 2) (line # rest))
            (blocks @ [create_code_block (join_nl rest) ?language]) st"
    by (intro parse_loop_step) simp_all
  then have loop: "parse_loop (line # rest) blocks st =
          (blocks @ [create_code_block (join_nl rest) ?language], st)"
    by (simp add: parse_loop_Nil)
  obtain lang where lang: "create_code_block (join_nl rest) ?language = Code (join_nl rest) lang"
    by (simp add: create_code_block_def)
  have "strip (drop 3 line) = [] \<longrightarrow> lang = 47"
    using lang plain_text_code [of "join_nl rest"] by auto
  moreover have "map_of language_map ''plain_text'' = Some 47"
    by (simp add: language_map_def)
  ultimately show ?thesis
    using loop lang split_join_nl [of rest] by auto
qed

theorem unclosed_fence_runs_to_end_witness:
  "parse_new (''# t'' @ NL # ''```'' @ NL # ''x = 1'' @ NL # [] @ NL # ''# y'') =
     ([Heading 1 [plain_run ''t''], Code (''x = 1'' @ NL # [] @ NL # ''# y'') 47], new_parser)"
proof -
  have f: "is_fence ''```''" by (simp add: is_fence_def startswith_def)
  have r: "\<forall>l\<in>set [''x = 1'', [], ''# y'']. \<not> is_fence l"
    by (simp add: is_fence_def startswith_def)
  have s: "strip (drop 3 ''```'') = []" by (simp add: strip_def)
  from unclosed_fence_runs_to_end [OF f r, of "[Heading 1 [plain_run ''t'']]" new_parser] s
  have "parse_loop [''```'', ''x = 1'', [], ''# y''] [Heading 1 [plain_run ''t'']] new_parser =
        ([Heading 1 [plain_run ''t''], Code (''x = 1'' @ NL # [] @ NL # ''# y'') 47], new_parser)"
    by auto
  moreover have "parse_step [''# t'', ''```'', ''x = 1'', [], ''# y''] 0 new_parser =
        ([Heading 1 [plain_run ''t'']], 1, new_parser)"
    by (simp add: startswith_def heading_level_def strip_def is_space_def create_heading_block_def
          create_text_elements_def parse_inline_formats_def match_at_def flush_plain_def)
  ultimately show ?thesis
    by (simp add: parse_new_def parse_def NL_def
          parse_loop_step [of _ "[]" new_parser "[Heading 1 [plain_run ''t'']]" 1 new_parser])
qed

section \<open>Table regions\<close>

lemma parse_table_from_rows:
  "fst (parse_table_from ls) =
     filter (\<lambda>row. \<not> is_separator_row row)
       (map (\<lambda>l. parse_table_row (strip l)) (take (snd (parse_table_from ls)) ls))"
proof (induction ls)
  case Nil
  then show ?case by simp
next
  case (Cons l ls)
  show ?case
  proof (cases "startswith (strip l) ''|'' \<and> parse_table_row (strip l) \<noteq> []")
    case False
    then show ?thesis by (auto simp: Let_def)
  next
    case True
    with Cons show ?thesis
      by (cases "parse_table_from ls") (simp add: Let_def)
  qed
qed

lemma parse_table_from_region:
  "\<forall>l\<in>set (take (snd (parse_table_from ls)) ls). startswith (strip l) ''|''"
proof (induction ls)
  case Nil
  then show ?case by simp
next
  case (Cons l ls)
  show ?case
  proof (cases "startswith (strip l) ''|'' \<and> parse_table_row (strip l) \<noteq> []")
    case False
    then show ?thesis by (auto simp: Let_def)
  next
    case True
    with Cons show ?thesis
      by (cases "parse_table_from ls") (simp add: Let_def)
  qed
qed

definition well_formed_table :: "block \<Rightarrow> bool" where
  "well_formed_table b =
     (case b of
        TablePlaceholder table_data rows cols \<Rightarrow>
          table_data \<noteq> [] \<and> list_all (\<lambda>row. \<not> is_separator_row row) table_data \<and>
          rows = length table_data \<and> cols = Max (set (map length table_data))
      | _ \<Rightarrow> True)"

lemma parse_step_well_formed_table:
  assumes "parse_step ls n st = (new, k, st')"
  shows "\<forall>b\<in>set new. well_formed_table b"
proof (cases ls)
  case Nil
  with assms show ?thesis by simp
next
  case (Cons line rest)
  from assms [unfolded Cons] show ?thesis
  proof (cases rule: parse_step_cases)
    case (table table_data)
    have "\<forall>row\<in>set (fst (parse_table_from (line # rest))). \<not> is_separator_row row"
      by (subst parse_table_from_rows) simp
    with table show ?thesis
      by (simp add: well_formed_table_def max_row_len_def list_all_iff)
  qed (simp_all add: well_formed_table_def create_heading_block_def create_code_block_def
        create_quote_block_def create_bullet_block_def create_ordered_block_def
        create_divider_block_def create_text_block_def)
qed

lemma parse_loop_blocks_invariant:
  assumes step: "\<And>ls n st new k st'. parse_step ls n st = (new, k, st') \<Longrightarrow> \<forall>b\<in>set new. P b"
  shows "\<forall>b\<in>set blocks. P b \<Longrightarrow> \<forall>b\<in>set (fst (parse_loop ls blocks st)). P b"
proof (induction ls blocks st rule: parse_loop.induct)
  case (1 ls blocks st)
  show ?case
  proof (cases "ls = []")
    case True
    with 1 show ?thesis by (simp add: parse_loop_Nil)
  next
    case False
    obtain new k st' where s: "parse_step ls (length blocks) st = (new, k, st')"
      by (cases "parse_step ls (length blocks) st") auto
    from step [OF s] "1.prems" have "\<forall>b\<in>set (blocks @ new). P b" by auto
    with "1.IH" [OF False s [symmetric] refl]
    have "\<forall>b\<in>set (fst (parse_loop (drop k ls) (blocks @ new) st')). P b" by simp
    with parse_loop_step [OF False s] show ?thesis by simp
  qed
qed

text \<open>
  Claim C4. Every table placeholder that \<^verbatim>\<open>parse\<close> emits has a non-empty grid without
  an alignment row, its row count is the number of rows and its column count is the
  largest cell count of its rows. The grid of a table region is the rows of the lines
  read, in order, without the alignment rows.
\<close>

theorem table_grid_without_alignment_rows:
  "(TablePlaceholder table_data rows cols \<in> set (fst (parse st md)) \<longrightarrow>
      table_data \<noteq> [] \<and> (\<forall>row\<in>set table_data. \<not> is_separator_row row) \<and>
      rows = length table_data \<and> cols = Max (set (map length table_data))) \<and>
   fst (parse_table lines start_idx) =
     filter (\<lambda>row. \<not> is_separator_row row)
       (map (\<lambda>l. parse_table_row (strip l))
          (take (snd (parse_table lines start_idx)) (drop start_idx lines)))"
proof -
  have "\<forall>b\<in>set (fst (parse st md)). well_formed_table b"
    unfolding parse_def
    by (rule parse_loop_blocks_invariant [OF parse_step_well_formed_table]) simp_all
  then have "TablePlaceholder table_data rows cols \<in> set (fst (parse st md)) \<longrightarrow>
      well_formed_table (TablePlaceholder table_data rows cols)"
    by blast
  then show ?thesis
    by (simp add: well_formed_table_def list_all_iff parse_table_def parse_table_from_rows [symmetric])
qed

lemma table_example:
  "parse_new (''| a | b |'' @ NL # ''|---|:-:|'' @ NL # ''| 1 | 2 | 3 |'') =
    ([TablePlaceholder [[''a'', ''b''], [''1'', ''2'', ''3'']] 2 3],
     \<lparr>pending_images = [], pending_tables = [(0, [[''a'', ''b''], [''1'', ''2'', ''3'']])]\<rparr>)"
  by code_simp

theorem table_grid_without_alignment_rows_witness:
  "TablePlaceholder [[''a'', ''b''], [''1'', ''2'', ''3'']] 2 3 \<in>
     set (fst (parse new_parser (''| a | b |'' @ NL # ''|---|:-:|'' @ NL # ''| 1 | 2 | 3 |''))) \<and>
   list_all (\<lambda>row. \<not> is_separator_row row) [[''a'', ''b''], [''1'', ''2'', ''3'']] \<and>
   (3::nat) = Max (set (map length [[''a'', ''b''], [''1'', ''2'', ''3'']]))"
proof -
  have mem: "TablePlaceholder [[''a'', ''b''], [''1'', ''2'', ''3'']] 2 3 \<in>
     set (fst (parse new_parser (''| a | b |'' @ NL # ''|---|:-:|'' @ NL # ''| 1 | 2 | 3 |'')))"
    using table_example by (simp add: parse_new_def)
  from table_grid_without_alignment_rows
         [of "[[''a'', ''b''], [''1'', ''2'', ''3'']]" 2 3 new_parser
             "''| a | b |'' @ NL # ''|---|:-:|'' @ NL # ''| 1 | 2 | 3 |''" "[]" 0] mem
  show ?thesis by (simp add: list_all_iff)
qed

section \<open>Headings\<close>

definition heading_depths :: "block list \<Rightarrow> nat list" where
  "heading_depths blocks =
     concat (map (\<lambda>b. case b of Heading level elements \<Rightarrow> [level] | _ \<Rightarrow> []) blocks)"

definition heading_lines :: "string list \<Rightarrow> string list" where
  "heading_lines ls = filter (\<lambda>l. startswith l ''#'') ls"

lemma heading_depths_append [simp]:
  "heading_depths (xs @ ys) = heading_depths xs @ heading_depths ys"
  by (simp add: heading_depths_def)

lemma heading_depths_Cons:
  "heading_depths (b # bs) =
     (case b of Heading level elements \<Rightarrow> [level] | _ \<Rightarrow> []) @ heading_depths bs"
  by (simp add: heading_depths_def)

lemma heading_depths_bullets [simp]:
  "heading_depths (map (\<lambda>l. create_bullet_block (f l)) xs) = []"
  by (induction xs) (simp_all add: heading_depths_def create_bullet_block_def)

lemma heading_depths_ordereds [simp]:
  "heading_depths (map (\<lambda>l. create_ordered_block (f l)) xs) = []"
  by (induction xs) (simp_all add: heading_depths_def create_ordered_block_def)

lemma heading_lines_take_drop:
  "heading_lines ls = heading_lines (take k ls) @ heading_lines (drop k ls)"
  unfolding heading_lines_def by (metis append_take_drop_id filter_append)

lemma heading_lines_none:
  "\<forall>l\<in>set ls. \<not> startswith l ''#'' \<Longrightarrow> heading_lines ls = []"
  by (simp add: heading_lines_def)

lemma strip_keeps_first:
  assumes "\<not> is_space c"
  shows "\<exists>t'. strip (c # t) = c # t'"
proof -
  have "\<exists>zs. dropWhile is_space (rev t @ [c]) = zs @ [c]"
    using assms by (cases "\<forall>x\<in>set t. is_space x") (simp_all add: dropWhile_append)
  then obtain zs where "dropWhile is_space (rev t @ [c]) = zs @ [c]" ..
  then have "strip (c # t) = c # rev zs"
    using assms by (simp add: strip_def)
  then show ?thesis by blast
qed

lemma table_line_not_heading:
  assumes "startswith (strip l) ''|''"
  shows "\<not> startswith l ''#''"
proof
  assume "startswith l ''#''"
  then obtain t where l: "l = CHR ''#'' # t"
    by (cases l) (auto simp: startswith_def)
  have "\<not> is_space (CHR ''#'')" by (simp add: is_space_def)
  from strip_keeps_first [OF this, of t] l assms show False
    by (auto simp: startswith_def)
qed

lemma bullet_not_heading: "is_bullet l \<Longrightarrow> \<not> startswith l ''#''"
  by (auto simp: is_bullet_def startswith_def split: list.splits)

lemma ordered_not_heading: "is_ordered l \<Longrightarrow> \<not> startswith l ''#''"
  by (cases l) (auto simp: is_ordered_def startswith_def is_digit_def)

lemma quote_not_heading: "startswith l ''>'' \<Longrightarrow> \<not> startswith l ''#''"
  by (cases l) (auto simp: startswith_def)

lemma take_length_takeWhile: "take (length (takeWhile P xs)) xs = takeWhile P xs"
  by (induction xs) auto

lemma parse_step_headings:
  assumes "parse_step (line # rest) n st = (new, k, st')" and "\<not> is_fence line"
  shows "heading_depths new =
           map (\<lambda>l. min (heading_level l) 9) (heading_lines (take k (line # rest)))"
  using assms(1)
proof (cases rule: parse_step_cases)
  case heading
  then show ?thesis
    by (simp add: heading_depths_def heading_lines_def create_heading_block_def)
next
  case code
  with assms(2) show ?thesis by simp
next
  case (table table_data)
  have "\<forall>l\<in>set (take k (line # rest)). \<not> startswith l ''#''"
    using parse_table_from_region [of "line # rest"] table(6) table_line_not_heading by blast
  then have "heading_lines (take k (line # rest)) = []" by (rule heading_lines_none)
  with table show ?thesis by (simp add: heading_depths_def)
next
  case (image img_path is_url)
  then show ?thesis by (simp add: heading_depths_def heading_lines_def)
next
  case quote
  have "\<forall>l\<in>set (takeWhile (\<lambda>l. startswith l ''>'') (line # rest)). \<not> startswith l ''#''"
    using quote_not_heading by (metis set_takeWhileD)
  then have "heading_lines (take k (line # rest)) = []"
    unfolding quote(5) take_length_takeWhile by (rule heading_lines_none)
  with quote show ?thesis by (simp add: heading_depths_def create_quote_block_def)
next
  case bullet
  have "\<forall>l\<in>set (takeWhile is_bullet (line # rest)). \<not> startswith l ''#''"
    using bullet_not_heading by (metis set_takeWhileD)
  then have "heading_lines (take k (line # rest)) = []"
    unfolding bullet(5) take_length_takeWhile by (rule heading_lines_none)
  with bullet show ?thesis by (simp del: takeWhile.simps)
next
  case ordered
  have "\<forall>l\<in>set (takeWhile is_ordered (line # rest)). \<not> startswith l ''#''"
    using ordered_not_heading by (metis set_takeWhileD)
  then have "heading_lines (take k (line # rest)) = []"
    unfolding ordered(5) take_length_takeWhile by (rule heading_lines_none)
  with ordered show ?thesis by (simp del: takeWhile.simps)
next
  case divider
  then show ?thesis by (simp add: heading_depths_def heading_lines_def create_divider_block_def)
next
  case para
  then show ?thesis by (simp add: heading_depths_def heading_lines_def create_text_block_def)
next
  case blank
  then show ?thesis by (simp add: heading_depths_def heading_lines_def)
qed

text \<open>
  The lines outside the fenced code blocks: a fence line opens a block when none is open
  and closes the open one; \<open>in_code\<close> tells whether a block is open. The fence lines
  themselves and the lines of a block are left out.
\<close>

fun unfenced :: "bool \<Rightarrow> string list \<Rightarrow> string list" where
  "unfenced in_code [] = []"
| "unfenced in_code (l # ls) =
     (if is_fence l then unfenced (\<not> in_code) ls
      else if in_code then unfenced in_code ls
      else l # unfenced in_code ls)"

lemma unfenced_append:
  "\<forall>l\<in>set xs. \<not> is_fence l \<Longrightarrow> unfenced False (xs @ ys) = xs @ unfenced False ys"
  by (induction xs) simp_all

lemma unfenced_no_fence: "\<forall>l\<in>set xs. \<not> is_fence l \<Longrightarrow> unfenced False xs = xs"
  using unfenced_append [of xs "[]"] by simp

lemma unfenced_in_code:
  "unfenced True ls = unfenced False (drop 1 (dropWhile (\<lambda>l. \<not> is_fence l) ls))"
  by (induction ls) simp_all

lemma heading_not_fence: "startswith l ''#'' \<Longrightarrow> \<not> is_fence l"
  by (cases l) (auto simp: is_fence_def startswith_def)

lemma table_line_not_fence:
  assumes "startswith (strip l) ''|''"
  shows "\<not> is_fence l"
proof
  assume "is_fence l"
  then obtain t where l: "l = CHR 0x60 # t"
    by (cases l) (auto simp: is_fence_def startswith_def)
  have "\<not> is_space (CHR 0x60)" by (simp add: is_space_def)
  from strip_keeps_first [OF this, of t] l assms show False
    by (auto simp: startswith_def)
qed

lemma bullet_not_fence: "is_bullet l \<Longrightarrow> \<not> is_fence l"
  by (auto simp: is_bullet_def is_fence_def startswith_def split: list.splits)

lemma ordered_not_fence: "is_ordered l \<Longrightarrow> \<not> is_fence l"
  by (cases l) (auto simp: is_ordered_def is_fence_def startswith_def is_digit_def)

lemma quote_not_fence: "startswith l ''>'' \<Longrightarrow> \<not> is_fence l"
  by (cases l) (auto simp: is_fence_def startswith_def)

lemma parse_step_no_fence:
  assumes "parse_step (line # rest) n st = (new, k, st')" and "\<not> is_fence line"
  shows "\<forall>l\<in>set (take k (line # rest)). \<not> is_fence l"
  using assms(1)
proof (cases rule: parse_step_cases)
  case heading
  with assms(2) show ?thesis by simp
next
  case code
  with assms(2) show ?thesis by simp
next
  case (table table_data)
  then show ?thesis
    using parse_table_from_region [of "line # rest"] table_line_not_fence by blast
next
  case (image img_path is_url)
  with assms(2) show ?thesis by simp
next
  case quote
  have "\<forall>l\<in>set (takeWhile (\<lambda>l. startswith l ''>'') (line # rest)). \<not> is_fence l"
    using quote_not_fence by (metis set_takeWhileD)
  then show ?thesis unfolding quote(5) take_length_takeWhile .
next
  case bullet
  have "\<forall>l\<in>set (takeWhile is_bullet (line # rest)). \<not> is_fence l"
    using bullet_not_fence by (metis set_takeWhileD)
  then show ?thesis unfolding bullet(5) take_length_takeWhile .
next
  case ordered
  have "\<forall>l\<in>set (takeWhile is_ordered (line # rest)). \<not> is_fence l"
    using ordered_not_fence by (metis set_takeWhileD)
  then show ?thesis unfolding ordered(5) take_length_takeWhile .
next
  case divider
  with assms(2) show ?thesis by simp
next
  case para
  with assms(2) show ?thesis by simp
next
  case blank
  with assms(2) show ?thesis by simp
qed

lemma parse_step_fence_headings:
  assumes "parse_step (line # rest) n st = (new, k, st')" and "is_fence line"
  shows "heading_depths new = [] \<and>
         unfenced False (line # rest) = unfenced False (drop k (line # rest))"
proof -
  from parse_step_fence [OF assms(2), of rest n st] assms(1)
  have new: "new = [create_code_block (join_nl (takeWhile (\<lambda>l. \<not> is_fence l) rest))
         (if strip (drop 3 line) = [] then ''plain_text'' else strip (drop 3 line))]"
    and k: "k = length (takeWhile (\<lambda>l. \<not> is_fence l) rest) + 2"
    by simp_all
  have "drop k (line # rest) = drop 1 (dropWhile (\<lambda>l. \<not> is_fence l) rest)"
    unfolding k by (simp add: dropWhile_eq_drop)
  with assms(2) new show ?thesis
    by (simp add: unfenced_in_code heading_depths_def create_code_block_def)
qed

lemma parse_loop_headings:
  "heading_depths (fst (parse_loop ls blocks st)) =
     heading_depths blocks @
     map (\<lambda>l. min (heading_level l) 9) (heading_lines (unfenced False ls))"
proof (induction ls blocks st rule: parse_loop.induct)
  case (1 ls blocks st)
  show ?case
  proof (cases ls)
    case Nil
    then show ?thesis by (simp add: parse_loop_Nil heading_lines_def)
  next
    case (Cons line rest)
    then have ne: "ls \<noteq> []" by simp
    obtain new k st' where s: "parse_step ls (length blocks) st = (new, k, st')"
      by (cases "parse_step ls (length blocks) st") auto
    from "1.IH" [OF ne s [symmetric] refl]
    have ih: "heading_depths (fst (parse_loop (drop k ls) (blocks @ new) st')) =
            heading_depths (blocks @ new) @
            map (\<lambda>l. min (heading_level l) 9) (heading_lines (unfenced False (drop k ls)))" .
    have "heading_depths new @
            map (\<lambda>l. min (heading_level l) 9) (heading_lines (unfenced False (drop k ls))) =
          map (\<lambda>l. min (heading_level l) 9) (heading_lines (unfenced False ls))"
    proof (cases "is_fence line")
      case True
      from parse_step_fence_headings [OF s [unfolded Cons] True] Cons show ?thesis by simp
    next
      case False
      from parse_step_no_fence [OF s [unfolded Cons] False] Cons
      have "\<forall>l\<in>set (take k ls). \<not> is_fence l" by simp
      from unfenced_append [OF this, of "drop k ls"]
      have "unfenced False ls = take k ls @ unfenced False (drop k ls)" by simp
      then have "heading_lines (unfenced False ls) =
          heading_lines (take k ls) @ heading_lines (unfenced False (drop k ls))"
        by (simp add: heading_lines_def)
      moreover have "heading_depths new =
            map (\<lambda>l. min (heading_level l) 9) (heading_lines (take k ls))"
        using parse_step_headings [OF s [unfolded Cons] False] Cons by simp
      ultimately show ?thesis by simp
    qed
    with ih parse_loop_step [OF ne s] show ?thesis by simp
  qed
qed

lemma heading_level_pos: "startswith l ''#'' \<Longrightarrow> 1 \<le> heading_level l"
  by (cases l) (auto simp: startswith_def heading_level_def)

text \<open>
  Claim C2, amended. For every input, the heading blocks that \<^verbatim>\<open>parse\<close> emits are those
  of the lines that begin with the heading marker and stand outside the fenced code
  blocks: one heading block for each such line, in order, of the depth of the leading
  markers (at least one) capped at 9. For an input without a fence line these are all the
  marker lines. Whenever the loop stands at a marker line it emits exactly that heading
  block and moves one line on. (A marker line inside a fenced code block is code content,
  see the counterexample below.)
\<close>

theorem heading_per_marker_line:
  "heading_depths (fst (parse st md)) =
     map (\<lambda>l. min (heading_level l) 9) (heading_lines (unfenced False (split_on NL md))) \<and>
   length (heading_depths (fst (parse st md))) =
     length (heading_lines (unfenced False (split_on NL md))) \<and>
   (\<forall>l\<in>set (heading_lines (unfenced False (split_on NL md))). 1 \<le> heading_level l) \<and>
   ((\<forall>l\<in>set (split_on NL md). \<not> is_fence l) \<longrightarrow>
      heading_depths (fst (parse st md)) =
        map (\<lambda>l. min (heading_level l) 9) (heading_lines (split_on NL md))) \<and>
   (startswith line ''#'' \<longrightarrow>
      parse_step (line # rest) n st =
        ([Heading (min (heading_level line) 9)
            (create_text_elements (strip (drop (heading_level line) line)))], 1, st))"
proof -
  have all: "heading_depths (fst (parse st md)) =
     map (\<lambda>l. min (heading_level l) 9) (heading_lines (unfenced False (split_on NL md)))"
    using parse_loop_headings [of "split_on NL md" "[]" st]
    by (simp add: parse_def heading_depths_def)
  have pos: "\<forall>l\<in>set (heading_lines (unfenced False (split_on NL md))). 1 \<le> heading_level l"
    using heading_level_pos by (simp add: heading_lines_def)
  have nf: "(\<forall>l\<in>set (split_on NL md). \<not> is_fence l) \<longrightarrow>
      heading_depths (fst (parse st md)) =
        map (\<lambda>l. min (heading_level l) 9) (heading_lines (split_on NL md))"
    using all unfenced_no_fence [of "split_on NL md"] by auto
  have step: "startswith line ''#'' \<longrightarrow>
      parse_step (line # rest) n st =
        ([Heading (min (heading_level line) 9)
            (create_text_elements (strip (drop (heading_level line) line)))], 1, st)"
    by (simp add: Let_def create_heading_block_def)
  from all pos nf step show ?thesis by simp
qed

text \<open>
  The claim C2 as stated fails on a marker line after an opening fence: the line is taken
  as code content and no heading block is emitted.
\<close>

theorem heading_inside_fence_counterexample:
  "heading_lines (split_on NL (''```'' @ NL # ''# x'')) = [''# x''] \<and>
   fst (parse_new (''```'' @ NL # ''# x'')) = [Code ''# x'' 47] \<and>
   heading_depths (fst (parse_new (''```'' @ NL # ''# x''))) = []"
  by code_simp

theorem heading_per_marker_line_witness:
  "heading_depths (fst (parse new_parser
     (''# a'' @ NL # ''text'' @ NL # ''```sh'' @ NL # ''# x'' @ NL # ''```'' @ NL #
      ''###########  b'' @ NL # ''- i'' @ NL # ''## c''))) = [1, 9, 2] \<and>
   unfenced False (split_on NL
     (''# a'' @ NL # ''text'' @ NL # ''```sh'' @ NL # ''# x'' @ NL # ''```'' @ NL #
      ''###########  b'' @ NL # ''- i'' @ NL # ''## c'')) =
     [''# a'', ''text'', ''###########  b'', ''- i'', ''## c'']"
proof -
  have u: "unfenced False (split_on NL
     (''# a'' @ NL # ''text'' @ NL # ''```sh'' @ NL # ''# x'' @ NL # ''```'' @ NL #
      ''###########  b'' @ NL # ''- i'' @ NL # ''## c'')) =
     [''# a'', ''text'', ''###########  b'', ''- i'', ''## c'']"
    by code_simp
  have hl: "map (\<lambda>l. min (heading_level l) 9)
      (heading_lines [''# a'', ''text'', ''###########  b'', ''- i'', ''## c'']) = [1, 9, 2]"
    by code_simp
  have hs: "startswith ''# a'' ''#''" by code_simp
  from heading_per_marker_line [of new_parser
     "''# a'' @ NL # ''text'' @ NL # ''```sh'' @ NL # ''# x'' @ NL # ''```'' @ NL #
      ''###########  b'' @ NL # ''- i'' @ NL # ''## c''" "''# a''" "[]" 0]
     u hl hs
  show ?thesis by simp
qed

section \<open>The remote document client\<close>

text \<open>
  \<^verbatim>\<open>doc_writer.py\<close> talks to the remote service through \<^verbatim>\<open>requests\<close>. The service is a
  parameter of the model: a function from a request and the state of the remote side to a
  response and the new state. A response is \<open>Failed\<close> when the call or
  \<^verbatim>\<open>raise_for_status\<close> raises, and otherwise the decoded reply with its application-level
  \<^verbatim>\<open>code\<close> and the lists the client reads from \<^verbatim>\<open>data\<close>. A session is the remote state
  together with the log of the requests sent and their responses, in order.
\<close>

record cell_item =
  block_id :: "string option"

record file_entry =
  name :: "string option"
  token :: "string option"

record reply_data =
  items :: "cell_item list"
  files :: "file_entry list"

datatype request =
    PostChildren string string "block list"
  | GetChildren string string
  | PostCellText string string string
  | GetFiles string

datatype response = Failed | Reply int reply_data

datatype error = RequestError

type_synonym 'w remote = "request \<Rightarrow> 'w \<Rightarrow> response \<times> 'w"

type_synonym 'w session = "'w \<times> (request \<times> response) list"

definition send :: "'w remote \<Rightarrow> request \<Rightarrow> 'w session \<Rightarrow> response \<times> 'w session" where
  "send srv req s =
     (case srv req (fst s) of
        (resp, w') \<Rightarrow> (resp, (w', snd s @ [(req, resp)])))"

text \<open>
  \<^verbatim>\<open>append_blocks\<close>: the loop \<^verbatim>\<open>for i in range(0, len(blocks), 50)\<close> over the blocks not
  yet sent. A request that raises ends the call with the exception; a reply with a
  non-zero code ends it with \<^verbatim>\<open>False\<close>.
\<close>

definition batch_size :: nat where
  "batch_size = 50"

function append_chunks ::
  "'w remote \<Rightarrow> string \<Rightarrow> string \<Rightarrow> block list \<Rightarrow> 'w session \<Rightarrow> (error + bool) \<times> 'w session" where
  "append_chunks srv document_id parent blocks s =
     (if blocks = [] then (Inr True, s)
      else (case send srv (PostChildren document_id parent (take batch_size blocks)) s of
              (Failed, s') \<Rightarrow> (Inl RequestError, s')
            | (Reply code d, s') \<Rightarrow>
                if code \<noteq> 0 then (Inr False, s')
                else append_chunks srv document_id parent (drop batch_size blocks) s'))"
  by pat_completeness auto
termination
  by (relation "measure (\<lambda>(srv, document_id, parent, blocks, s). length blocks)")
     (auto simp: batch_size_def)

declare append_chunks.simps [simp del]

definition append_blocks ::
  "'w remote \<Rightarrow> string \<Rightarrow> string \<Rightarrow> block list \<Rightarrow> 'w session \<Rightarrow> (error + bool) \<times> 'w session" where
  "append_blocks srv document_id parent blocks s =
     (if blocks = [] then (Inr True, s)
      else append_chunks srv document_id parent blocks s)"

text \<open>
  \<^verbatim>\<open>list_documents_in_folder\<close>: a reply with a non-zero code gives the empty list; a
  request that raises is not caught.
\<close>

definition list_documents_in_folder ::
  "'w remote \<Rightarrow> string \<Rightarrow> 'w session \<Rightarrow> (error + file_entry list) \<times> 'w session" where
  "list_documents_in_folder srv folder_token s =
     (case send srv (GetFiles folder_token) s of
        (Failed, s') \<Rightarrow> (Inl RequestError, s')
      | (Reply code d, s') \<Rightarrow> if code \<noteq> 0 then (Inr [], s') else (Inr (files d), s'))"

text \<open>
  \<^verbatim>\<open>fill_table_cell\<close> catches every exception and returns whether the cell was filled.
  An identifier that is missing in the reply is formatted into the address as
  \<^verbatim>\<open>None\<close>.
\<close>

definition id_text :: "string option \<Rightarrow> string" where
  "id_text x = (case x of None \<Rightarrow> ''None'' | Some v \<Rightarrow> v)"

definition fill_table_cell ::
  "'w remote \<Rightarrow> string \<Rightarrow> string \<Rightarrow> string \<Rightarrow> 'w session \<Rightarrow> bool \<times> 'w session" where
  "fill_table_cell srv document_id cell_block_id text s =
     (case send srv (PostCellText document_id cell_block_id text) s of
        (Failed, s') \<Rightarrow> (False, s')
      | (Reply code d, s') \<Rightarrow> (code = 0, s'))"

text \<open>
  The two loops of \<^verbatim>\<open>fill_table\<close>. \<open>fill_cols\<close> is the inner loop over the column
  indices still to visit in row \<open>row_idx\<close>: \<^verbatim>\<open>break\<close> leaves it, \<^verbatim>\<open>continue\<close> goes to the
  next column. \<open>fill_rows\<close> is the outer loop over the row indices.
\<close>

fun fill_cols ::
  "'w remote \<Rightarrow> string \<Rightarrow> cell_item list \<Rightarrow> string list list \<Rightarrow> nat \<Rightarrow> nat \<Rightarrow> nat list \<Rightarrow>
   'w session \<Rightarrow> 'w session" where
  "fill_cols srv document_id cells table_data cols row_idx [] s = s"
| "fill_cols srv document_id cells table_data cols row_idx (col_idx # later) s =
     (let cell_index = row_idx * cols + col_idx
      in if cell_index \<ge> length cells then s
         else if col_idx \<ge> length (table_data ! row_idx)
         then fill_cols srv document_id cells table_data cols row_idx later s
         else (let cell_id = id_text (block_id (cells ! cell_index));
                   text = table_data ! row_idx ! col_idx
               in if text \<noteq> []
                  then (case fill_table_cell srv document_id cell_id text s of
                          (success, s') \<Rightarrow>
                            fill_cols srv document_id cells table_data cols row_idx later s')
                  else fill_cols srv document_id cells table_data cols row_idx later s))"

fun fill_rows ::
  "'w remote \<Rightarrow> string \<Rightarrow> cell_item list \<Rightarrow> string list list \<Rightarrow> nat \<Rightarrow> nat list \<Rightarrow>
   'w session \<Rightarrow> 'w session" where
  "fill_rows srv document_id cells table_data cols [] s = s"
| "fill_rows srv document_id cells table_data cols (row_idx # later) s =
     fill_rows srv document_id cells table_data cols later
       (fill_cols srv document_id cells table_data cols row_idx [0..<cols] s)"

text \<open>
  \<^verbatim>\<open>fill_table\<close>: everything is inside one \<^verbatim>\<open>try\<close>, so a request for the cells that
  raises gives \<^verbatim>\<open>False\<close>, as a reply with a non-zero code does.
\<close>

definition fill_table ::
  "'w remote \<Rightarrow> string \<Rightarrow> string \<Rightarrow> string list list \<Rightarrow> 'w session \<Rightarrow> bool \<times> 'w session" where
  "fill_table srv document_id table_block_id table_data s =
     (case send srv (GetChildren document_id table_block_id) s of
        (Failed, s') \<Rightarrow> (False, s')
      | (Reply code d, s') \<Rightarrow>
          if code \<noteq> 0 then (False, s')
          else (let cells = items d;
                    rows = length table_data;
                    cols = max_row_len table_data
                in (True, fill_rows srv document_id cells table_data cols [0..<rows] s')))"

section \<open>Appending in chunks\<close>

text \<open>The split the claim describes: consecutive chunks of at most \<open>n\<close> elements.\<close>

function chunks_of :: "nat \<Rightarrow> 'a list \<Rightarrow> 'a list list" where
  "chunks_of n xs = (if xs = [] \<or> n = 0 then [] else take n xs # chunks_of n (drop n xs))"
  by pat_completeness auto
termination
  by (relation "measure (\<lambda>(n, xs). length xs)") auto

declare chunks_of.simps [simp del]

fun accepted :: "response \<Rightarrow> bool" where
  "accepted (Reply code d) = (code = 0)"
| "accepted Failed = False"

fun rejected :: "response \<Rightarrow> bool" where
  "rejected (Reply code d) = (code \<noteq> 0)"
| "rejected Failed = False"

definition remote_after :: "'w remote \<Rightarrow> 'w \<Rightarrow> request list \<Rightarrow> 'w" where
  "remote_after srv w reqs = foldl (\<lambda>w req. snd (srv req w)) w reqs"

text \<open>
  What a run of \<^verbatim>\<open>append_blocks\<close> on \<open>blocks\<close> with result \<open>res\<close> adds to the log, and
  the remote state it leaves.
\<close>

definition chunked_run ::
  "'w remote \<Rightarrow> string \<Rightarrow> string \<Rightarrow> block list \<Rightarrow> 'w \<Rightarrow> (error + bool) \<Rightarrow>
   (request \<times> response) list \<Rightarrow> 'w \<Rightarrow> bool" where
  "chunked_run srv document_id parent blocks w res new w' =
     (map fst new =
        take (length new) (map (PostChildren document_id parent) (chunks_of batch_size blocks)) \<and>
      length new \<le> length (chunks_of batch_size blocks) \<and>
      list_all accepted (map snd (butlast new)) \<and>
      (res = Inr True) = (length new = length (chunks_of batch_size blocks) \<and>
                          list_all accepted (map snd new)) \<and>
      (res = Inr False) = (new \<noteq> [] \<and> rejected (snd (last new))) \<and>
      (res = Inl RequestError) = (new \<noteq> [] \<and> snd (last new) = Failed) \<and>
      w' = remote_after srv w (map fst new))"

lemma chunks_of_Nil [simp]: "chunks_of n [] = []"
  by (simp add: chunks_of.simps)

lemma chunks_of_step:
  "xs \<noteq> [] \<Longrightarrow> 0 < n \<Longrightarrow> chunks_of n xs = take n xs # chunks_of n (drop n xs)"
  by (subst chunks_of.simps) simp

lemma concat_chunks_of: "0 < n \<Longrightarrow> concat (chunks_of n xs) = xs"
proof (induction n xs rule: chunks_of.induct)
  case (1 n xs)
  show ?case
  proof (cases "xs = []")
    case True
    then show ?thesis by simp
  next
    case False
    with 1 have "concat (chunks_of n (drop n xs)) = drop n xs" by simp
    then show ?thesis
      unfolding chunks_of_step [OF False "1.prems"] by simp
  qed
qed

lemma chunks_of_sizes:
  "0 < n \<Longrightarrow> \<forall>c\<in>set (chunks_of n xs). 1 \<le> length c \<and> length c \<le> n"
proof (induction n xs rule: chunks_of.induct)
  case (1 n xs)
  show ?case
  proof (cases "xs = []")
    case True
    then show ?thesis by simp
  next
    case False
    with 1 have ih: "\<forall>c\<in>set (chunks_of n (drop n xs)). 1 \<le> length c \<and> length c \<le> n"
      by simp
    from False "1.prems" have "1 \<le> length (take n xs) \<and> length (take n xs) \<le> n"
      by (cases xs) simp_all
    with ih show ?thesis
      unfolding chunks_of_step [OF False "1.prems"] by simp
  qed
qed

lemma send_log: "send srv req s = (resp, s') \<Longrightarrow>
   snd s' = snd s @ [(req, resp)] \<and> fst s' = snd (srv req (fst s))"
  by (auto simp: send_def split: prod.splits)

lemma chunked_run_Nil:
  "chunked_run srv document_id parent [] w (Inr True) [] w"
  by (simp add: chunked_run_def remote_after_def)

lemma chunked_run_stop:
  assumes "blocks \<noteq> []" and "\<not> accepted resp"
    and "res = (case resp of Failed \<Rightarrow> Inl RequestError | Reply code d \<Rightarrow> Inr False)"
  shows "chunked_run srv document_id parent blocks w res
           [(PostChildren document_id parent (take batch_size blocks), resp)]
           (snd (srv (PostChildren document_id parent (take batch_size blocks)) w))"
proof -
  have ch: "chunks_of batch_size blocks =
              take batch_size blocks # chunks_of batch_size (drop batch_size blocks)"
    using assms(1) by (simp add: chunks_of_step batch_size_def)
  show ?thesis
    using assms(2,3) unfolding chunked_run_def ch
    by (cases resp) (simp_all add: remote_after_def)
qed

lemma chunked_run_Cons:
  assumes run: "chunked_run srv document_id parent (drop batch_size blocks) w1 res new w'"
    and ne: "blocks \<noteq> []" and acc: "accepted resp"
    and w1: "w1 = snd (srv (PostChildren document_id parent (take batch_size blocks)) w)"
  shows "chunked_run srv document_id parent blocks w res
           ((PostChildren document_id parent (take batch_size blocks), resp) # new) w'"
proof -
  let ?rest = "chunks_of batch_size (drop batch_size blocks)"
  have ch: "chunks_of batch_size blocks = take batch_size blocks # ?rest"
    using ne by (simp add: chunks_of_step batch_size_def)
  from run have r1: "map fst new = take (length new) (map (PostChildren document_id parent) ?rest)"
    and r2: "length new \<le> length ?rest"
    and r3: "list_all accepted (map snd (butlast new))"
    and r4: "(res = Inr True) = (length new = length ?rest \<and> list_all accepted (map snd new))"
    and r5: "(res = Inr False) = (new \<noteq> [] \<and> rejected (snd (last new)))"
    and r6: "(res = Inl RequestError) = (new \<noteq> [] \<and> snd (last new) = Failed)"
    and r7: "w' = remote_after srv w1 (map fst new)"
    unfolding chunked_run_def by blast+
  obtain code d where resp: "resp = Reply code d" "code = 0"
    using acc by (cases resp) auto
  have nil: "res = Inr True \<and> ?rest = []" if "new = []"
  proof -
    from r5 r6 that have n1: "res \<noteq> Inr False" and n2: "res \<noteq> Inl RequestError"
      by simp_all
    have "res = Inr True"
    proof (cases res)
      case (Inl e)
      with n2 show ?thesis by (cases e) simp
    next
      case (Inr b)
      with n1 show ?thesis by (cases b) simp_all
    qed
    with r4 that show ?thesis by simp
  qed
  show ?thesis
    unfolding chunked_run_def ch
  proof (intro conjI)
    show "map fst ((PostChildren document_id parent (take batch_size blocks), resp) # new) =
          take (length ((PostChildren document_id parent (take batch_size blocks), resp) # new))
            (map (PostChildren document_id parent) (take batch_size blocks # ?rest))"
      using r1 by simp
    show "length ((PostChildren document_id parent (take batch_size blocks), resp) # new)
            \<le> length (take batch_size blocks # ?rest)"
      using r2 by simp
    show "list_all accepted
            (map snd (butlast ((PostChildren document_id parent (take batch_size blocks), resp) # new)))"
      using r3 acc by simp
    show "(res = Inr True) =
          (length ((PostChildren document_id parent (take batch_size blocks), resp) # new) =
             length (take batch_size blocks # ?rest) \<and>
           list_all accepted
             (map snd ((PostChildren document_id parent (take batch_size blocks), resp) # new)))"
      using r4 acc by simp
    show "(res = Inr False) =
          ((PostChildren document_id parent (take batch_size blocks), resp) # new \<noteq> [] \<and>
           rejected (snd (last ((PostChildren document_id parent (take batch_size blocks), resp) # new))))"
      using r5 nil resp by (cases "new = []") simp_all
    show "(res = Inl RequestError) =
          ((PostChildren document_id parent (take batch_size blocks), resp) # new \<noteq> [] \<and>
           snd (last ((PostChildren document_id parent (take batch_size blocks), resp) # new)) = Failed)"
      using r6 nil resp by (cases "new = []") simp_all
    show "w' = remote_after srv w
            (map fst ((PostChildren document_id parent (take batch_size blocks), resp) # new))"
      using r7 w1 by (simp add: remote_after_def)
  qed
qed

lemma append_chunks_run:
  "append_chunks srv document_id parent blocks s = (res, s') \<Longrightarrow>
   \<exists>new. snd s' = snd s @ new \<and>
         chunked_run srv document_id parent blocks (fst s) res new (fst s')"
proof (induction srv document_id parent blocks s arbitrary: res s' rule: append_chunks.induct)
  case (1 srv document_id parent blocks s)
  show ?case
  proof (cases "blocks = []")
    case True
    with "1.prems" have "res = Inr True" "s' = s" by (simp_all add: append_chunks.simps)
    with True have "snd s' = snd s @ [] \<and>
         chunked_run srv document_id parent blocks (fst s) res [] (fst s')"
      by (simp add: chunked_run_Nil)
    then show ?thesis by blast
  next
    case False
    let ?req = "PostChildren document_id parent (take batch_size blocks)"
    obtain resp s1 where snd1: "send srv ?req s = (resp, s1)"
      by (cases "send srv ?req s") auto
    note log1 = send_log [OF snd1]
    from "1.prems" False snd1
    have unfold: "(case resp of
              Failed \<Rightarrow> (Inl RequestError, s1)
            | Reply code d \<Rightarrow>
                if code \<noteq> 0 then (Inr False, s1)
                else append_chunks srv document_id parent (drop batch_size blocks) s1) = (res, s')"
      by (subst (asm) append_chunks.simps) simp
    show ?thesis
    proof (cases "accepted resp")
      case False
      with unfold have "s' = s1"
        and "res = (case resp of Failed \<Rightarrow> Inl RequestError | Reply code d \<Rightarrow> Inr False)"
        by (cases resp; simp)+
      with chunked_run_stop [OF \<open>blocks \<noteq> []\<close> False, of res srv document_id parent "fst s"] log1
      have "snd s' = snd s @ [(?req, resp)] \<and>
         chunked_run srv document_id parent blocks (fst s) res [(?req, resp)] (fst s')"
        by simp
      then show ?thesis by blast
    next
      case True
      then obtain code d where resp: "resp = Reply code d" "code = 0"
        by (cases resp) auto
      with unfold
      have rec: "append_chunks srv document_id parent (drop batch_size blocks) s1 = (res, s')"
        by simp
      from "1.IH" [OF \<open>blocks \<noteq> []\<close> snd1 [symmetric] resp(1) _ rec] resp(2)
      obtain new where new: "snd s' = snd s1 @ new"
        "chunked_run srv document_id parent (drop batch_size blocks) (fst s1) res new (fst s')"
        by auto
      have "chunked_run srv document_id parent blocks (fst s) res ((?req, resp) # new) (fst s')"
        using chunked_run_Cons [OF new(2) \<open>blocks \<noteq> []\<close> True] log1 by simp
      moreover have "snd s' = snd s @ (?req, resp) # new"
        using new(1) log1 by simp
      ultimately show ?thesis by blast
    qed
  qed
qed

text \<open>
  Claim C6. The requests that \<^verbatim>\<open>append_blocks\<close> adds to the log are the chunks of at
  most 50 blocks, in order, up to the first one that is not accepted: every request but
  the last was accepted, the result is \<^verbatim>\<open>True\<close> exactly when all chunks were sent and
  accepted, \<^verbatim>\<open>False\<close> exactly when the last request sent was answered with a non-zero
  code, and the exception exactly when it raised. The remote state is the one after the
  requests sent: nothing is undone. An empty batch gives \<^verbatim>\<open>True\<close> and sends nothing.
\<close>

theorem append_blocks_chunked:
  assumes "append_blocks srv document_id parent blocks s = (res, s')"
  shows "(\<exists>new. snd s' = snd s @ new \<and>
           chunked_run srv document_id parent blocks (fst s) res new (fst s')) \<and>
         concat (chunks_of batch_size blocks) = blocks \<and>
         (\<forall>c\<in>set (chunks_of batch_size blocks). 1 \<le> length c \<and> length c \<le> 50) \<and>
         (blocks = [] \<longrightarrow> res = Inr True \<and> s' = s)"
proof -
  have "\<exists>new. snd s' = snd s @ new \<and>
           chunked_run srv document_id parent blocks (fst s) res new (fst s')"
  proof (cases "blocks = []")
    case True
    with assms have "res = Inr True" "s' = s" by (simp_all add: append_blocks_def)
    with True have "snd s' = snd s @ [] \<and>
         chunked_run srv document_id parent blocks (fst s) res [] (fst s')"
      by (simp add: chunked_run_Nil)
    then show ?thesis by blast
  next
    case False
    with assms show ?thesis by (simp add: append_blocks_def append_chunks_run)
  qed
  moreover have "blocks = [] \<longrightarrow> res = Inr True \<and> s' = s"
    using assms by (auto simp: append_blocks_def)
  ultimately show ?thesis
    using concat_chunks_of [of batch_size blocks] chunks_of_sizes [of batch_size blocks]
    by (simp add: batch_size_def)
qed

text \<open>A service that accepts the first request and rejects every later one.\<close>

definition reject_later :: "nat remote" where
  "reject_later req w =
     (Reply (if w = 0 then 0 else 1) \<lparr>items = [], files = []\<rparr>, Suc w)"

theorem append_blocks_chunked_witness:
  "append_blocks reject_later ''d'' ''p'' (replicate 120 Divider) (0, []) =
     (Inr False,
      (2, [(PostChildren ''d'' ''p'' (replicate 50 Divider), Reply 0 \<lparr>items = [], files = []\<rparr>),
           (PostChildren ''d'' ''p'' (replicate 50 Divider), Reply 1 \<lparr>items = [], files = []\<rparr>)])) \<and>
   chunked_run reject_later ''d'' ''p'' (replicate 120 Divider) 0 (Inr False)
     [(PostChildren ''d'' ''p'' (replicate 50 Divider), Reply 0 \<lparr>items = [], files = []\<rparr>),
      (PostChildren ''d'' ''p'' (replicate 50 Divider), Reply 1 \<lparr>items = [], files = []\<rparr>)] 2 \<and>
   length (chunks_of batch_size (replicate 120 Divider)) = 3"
proof -
  have run: "append_blocks reject_later ''d'' ''p'' (replicate 120 Divider) (0, []) =
     (Inr False,
      (2, [(PostChildren ''d'' ''p'' (replicate 50 Divider), Reply 0 \<lparr>items = [], files = []\<rparr>),
           (PostChildren ''d'' ''p'' (replicate 50 Divider), Reply 1 \<lparr>items = [], files = []\<rparr>)]))"
    by code_simp
  have len: "length (chunks_of batch_size (replicate 120 Divider)) = 3"
    by code_simp
  from append_blocks_chunked [OF run] run len show ?thesis by auto
qed

section \<open>Filling a table\<close>

text \<open>
  The request for the grid cell \<open>(r, c)\<close> as the claim describes it: the text of the cell
  goes to the entry \<open>r * cols + c\<close> of the fetched cell list; there is no request when
  that entry does not exist, when the row has no column \<open>c\<close>, or when the text is empty.
\<close>

definition cell_request ::
  "string \<Rightarrow> cell_item list \<Rightarrow> string list list \<Rightarrow> nat \<Rightarrow> nat \<Rightarrow> nat \<Rightarrow> request list" where
  "cell_request document_id cells table_data cols r c =
     (if r * cols + c < length cells \<and> c < length (table_data ! r) \<and> table_data ! r ! c \<noteq> []
      then [PostCellText document_id (id_text (block_id (cells ! (r * cols + c))))
              (table_data ! r ! c)]
      else [])"

definition fill_requests :: "string \<Rightarrow> cell_item list \<Rightarrow> string list list \<Rightarrow> request list" where
  "fill_requests document_id cells table_data =
     concat (map (\<lambda>r. concat (map (cell_request document_id cells table_data
                                     (max_row_len table_data) r)
                               [0..<max_row_len table_data]))
               [0..<length table_data])"

lemma fill_table_cell_log:
  "map fst (snd (snd (fill_table_cell srv document_id cell_id text s))) =
     map fst (snd s) @ [PostCellText document_id cell_id text]"
  by (simp add: fill_table_cell_def send_def split: prod.splits response.splits)

lemma fill_cols_log:
  "sorted cs \<Longrightarrow>
   map fst (snd (fill_cols srv document_id cells table_data cols r cs s)) =
     map fst (snd s) @ concat (map (cell_request document_id cells table_data cols r) cs)"
proof (induction cs arbitrary: s)
  case Nil
  then show ?case by simp
next
  case (Cons c cs)
  from Cons.prems have sorted: "sorted cs" and ge: "\<forall>x\<in>set cs. c \<le> x" by simp_all
  note ih = Cons.IH [OF sorted]
  show ?case
  proof (cases "r * cols + c \<ge> length cells")
    case True
    with ge have "\<forall>x\<in>set (c # cs). cell_request document_id cells table_data cols r x = []"
      by (auto simp: cell_request_def)
    then have "concat (map (cell_request document_id cells table_data cols r) (c # cs)) = []"
      by (simp del: list.map)
    with True show ?thesis by (simp add: Let_def del: list.map concat.simps)
  next
    case inside: False
    show ?thesis
    proof (cases "c \<ge> length (table_data ! r)")
      case True
      with inside ih show ?thesis by (simp add: Let_def cell_request_def)
    next
      case col: False
      show ?thesis
      proof (cases "table_data ! r ! c = []")
        case True
        with inside col ih show ?thesis by (simp add: Let_def cell_request_def)
      next
        case False
        obtain ok s1 where f: "fill_table_cell srv document_id
            (id_text (block_id (cells ! (r * cols + c)))) (table_data ! r ! c) s = (ok, s1)"
          by (cases "fill_table_cell srv document_id
            (id_text (block_id (cells ! (r * cols + c)))) (table_data ! r ! c) s") auto
        from fill_table_cell_log [of srv document_id
            "id_text (block_id (cells ! (r * cols + c)))" "table_data ! r ! c" s] f
        have "map fst (snd s1) = map fst (snd s) @
            [PostCellText document_id (id_text (block_id (cells ! (r * cols + c))))
               (table_data ! r ! c)]"
          by simp
        with inside col False f ih [of s1] show ?thesis
          by (simp add: Let_def cell_request_def)
      qed
    qed
  qed
qed

lemma fill_rows_log:
  "map fst (snd (fill_rows srv document_id cells table_data cols rs s)) =
     map fst (snd s) @
     concat (map (\<lambda>r. concat (map (cell_request document_id cells table_data cols r) [0..<cols])) rs)"
  by (induction rs arbitrary: s) (simp_all add: fill_cols_log)

text \<open>
  Claim C7. When the request for the cells is accepted, \<^verbatim>\<open>fill_table\<close> returns
  \<^verbatim>\<open>True\<close> and the requests it sends after it are the requests of the grid cells in
  row-major order, whatever the service answers to them: a cell that fails to fill does
  not stop the rest. When the request for the cells is not accepted, nothing is filled.
\<close>

theorem fill_table_row_major:
  "(fst (srv (GetChildren document_id table_block_id) (fst s)) = Reply 0 d \<longrightarrow>
      fst (fill_table srv document_id table_block_id table_data s) = True \<and>
      map fst (snd (snd (fill_table srv document_id table_block_id table_data s))) =
        map fst (snd s) @ GetChildren document_id table_block_id #
          fill_requests document_id (items d) table_data) \<and>
   (\<not> accepted (fst (srv (GetChildren document_id table_block_id) (fst s))) \<longrightarrow>
      fst (fill_table srv document_id table_block_id table_data s) = False \<and>
      map fst (snd (snd (fill_table srv document_id table_block_id table_data s))) =
        map fst (snd s) @ [GetChildren document_id table_block_id])"
proof -
  obtain resp w1 where r: "srv (GetChildren document_id table_block_id) (fst s) = (resp, w1)"
    by (cases "srv (GetChildren document_id table_block_id) (fst s)") auto
  show ?thesis
  proof (cases resp)
    case Failed
    with r show ?thesis by (simp add: fill_table_def send_def)
  next
    case (Reply code d')
    with r show ?thesis
      by (simp add: fill_table_def send_def Let_def fill_rows_log fill_requests_def)
  qed
qed

text \<open>A service that hands out five cells and fails on every request to fill one.\<close>

definition five_cells :: "nat remote" where
  "five_cells req w =
     (case req of
        GetChildren document_id parent \<Rightarrow>
          Reply 0 \<lparr>items = map (\<lambda>i. \<lparr>block_id = Some i\<rparr>) [''c0'', ''c1'', ''c2'', ''c3'', ''c4''],
                   files = []\<rparr>
      | _ \<Rightarrow> Failed,
      Suc w)"

theorem fill_table_row_major_witness:
  "fill_table five_cells ''d'' ''t'' [[''a'', ''b'', ''c''], [''d'', [], ''f'']] (0, []) =
     (True, 5,
      [(GetChildren ''d'' ''t'',
        Reply 0 \<lparr>items = map (\<lambda>i. \<lparr>block_id = Some i\<rparr>) [''c0'', ''c1'', ''c2'', ''c3'', ''c4''],
                 files = []\<rparr>),
       (PostCellText ''d'' ''c0'' ''a'', Failed),
       (PostCellText ''d'' ''c1'' ''b'', Failed),
       (PostCellText ''d'' ''c2'' ''c'', Failed),
       (PostCellText ''d'' ''c3'' ''d'', Failed)]) \<and>
   fill_requests ''d'' (map (\<lambda>i. \<lparr>block_id = Some i\<rparr>) [''c0'', ''c1'', ''c2'', ''c3'', ''c4''])
       [[''a'', ''b'', ''c''], [''d'', [], ''f'']] =
     [PostCellText ''d'' ''c0'' ''a'', PostCellText ''d'' ''c1'' ''b'',
      PostCellText ''d'' ''c2'' ''c'', PostCellText ''d'' ''c3'' ''d'']"
proof -
  have run: "fill_table five_cells ''d'' ''t'' [[''a'', ''b'', ''c''], [''d'', [], ''f'']] (0, []) =
     (True, 5,
      [(GetChildren ''d'' ''t'',
        Reply 0 \<lparr>items = map (\<lambda>i. \<lparr>block_id = Some i\<rparr>) [''c0'', ''c1'', ''c2'', ''c3'', ''c4''],
                 files = []\<rparr>),
       (PostCellText ''d'' ''c0'' ''a'', Failed),
       (PostCellText ''d'' ''c1'' ''b'', Failed),
       (PostCellText ''d'' ''c2'' ''c'', Failed),
       (PostCellText ''d'' ''c3'' ''d'', Failed)])"
    by code_simp
  have get: "fst (five_cells (GetChildren ''d'' ''t'') (fst (0::nat, []))) =
     Reply 0 \<lparr>items = map (\<lambda>i. \<lparr>block_id = Some i\<rparr>) [''c0'', ''c1'', ''c2'', ''c3'', ''c4''],
              files = []\<rparr>"
    by (simp add: five_cells_def)
  from fill_table_row_major [of five_cells "''d''" "''t''" "(0, [])"
      "\<lparr>items = map (\<lambda>i. \<lparr>block_id = Some i\<rparr>) [''c0'', ''c1'', ''c2'', ''c3'', ''c4''], files = []\<rparr>"
      "[[''a'', ''b'', ''c''], [''d'', [], ''f'']]"] get run
  show ?thesis by simp
qed

section \<open>The writer\<close>

text \<open>
  \<^verbatim>\<open>writer.py\<close> drives the document client and the uploader. For the writer they are the
  operations of the record below, each a function of the state of the world outside
  (the remote service, the file system) that returns its result and the new state; an
  operation that can raise returns a sum. The writer is modelled for every such record.
  A document identifier is optional because the creating calls return what the reply
  holds. The writer's state is the world together with the list of the calls made so
  far, in order.
\<close>

datatype call =
    AppendBlocks "string option" "string option" "block list"
  | CreateImageBlock "string option" "string option"
  | Upload string string string
  | ReplaceImageToken "string option" string string
  | CreateTable "string option" "string option" nat nat
  | FillTable "string option" string "string list list"
  | ListDocumentsInFolder string
  | CreateDocument string "string option"
  | CreateWikiDocument string string "string option"
  | GetWikiSpaceId string

record 'w doc_api =
  api_append_blocks :: "string option \<Rightarrow> string option \<Rightarrow> block list \<Rightarrow> 'w \<Rightarrow> (error + bool) \<times> 'w"
  api_create_image_block :: "string option \<Rightarrow> string option \<Rightarrow> 'w \<Rightarrow> string option \<times> 'w"
  api_upload :: "string \<Rightarrow> string \<Rightarrow> string \<Rightarrow> 'w \<Rightarrow> (error + string option) \<times> 'w"
  api_replace_image_token :: "string option \<Rightarrow> string \<Rightarrow> string \<Rightarrow> 'w \<Rightarrow> bool \<times> 'w"
  api_create_table :: "string option \<Rightarrow> string option \<Rightarrow> nat \<Rightarrow> nat \<Rightarrow> 'w \<Rightarrow> string option \<times> 'w"
  api_fill_table :: "string option \<Rightarrow> string \<Rightarrow> string list list \<Rightarrow> 'w \<Rightarrow> bool \<times> 'w"
  api_list_documents_in_folder :: "string \<Rightarrow> 'w \<Rightarrow> (error + file_entry list) \<times> 'w"
  api_create_document ::
    "string \<Rightarrow> string option \<Rightarrow> 'w \<Rightarrow> (error + string option \<times> string option) \<times> 'w"
  api_create_wiki_document ::
    "string \<Rightarrow> string \<Rightarrow> string option \<Rightarrow> 'w \<Rightarrow> (error + string option \<times> string option) \<times> 'w"
  api_get_wiki_space_id :: "string \<Rightarrow> 'w \<Rightarrow> (error + string option) \<times> 'w"

type_synonym 'w wstate = "'w \<times> call list"

definition invoke :: "call \<Rightarrow> ('w \<Rightarrow> 'a \<times> 'w) \<Rightarrow> 'w wstate \<Rightarrow> 'a \<times> 'w wstate" where
  "invoke c operation s =
     (case operation (fst s) of (r, w') \<Rightarrow> (r, (w', snd s @ [c])))"

text \<open>The truth value of an optional string: \<^verbatim>\<open>None\<close> and the empty string are false.\<close>

definition truthy :: "string option \<Rightarrow> bool" where
  "truthy x = (case x of Some (c # cs) \<Rightarrow> True | _ \<Rightarrow> False)"

text \<open>The two dictionaries built from the pending lists: a later entry replaces an earlier one.\<close>

definition image_map_of :: "(nat \<times> string \<times> bool) list \<Rightarrow> nat \<Rightarrow> (string \<times> bool) option" where
  "image_map_of pending = map_of (rev pending)"

definition table_map_of :: "(nat \<times> string list list) list \<Rightarrow> nat \<Rightarrow> string list list option" where
  "table_map_of pending = map_of (rev pending)"

text \<open>\<^verbatim>\<open>if current_batch: append_blocks(doc_id, doc_id, current_batch)\<close>; the result is ignored.\<close>

definition flush ::
  "'w doc_api \<Rightarrow> string option \<Rightarrow> block list \<Rightarrow> 'w wstate \<Rightarrow> (error + unit) \<times> 'w wstate" where
  "flush api doc_id current_batch s =
     (if current_batch = [] then (Inr (), s)
      else (case invoke (AppendBlocks doc_id doc_id current_batch)
                   (api_append_blocks api doc_id doc_id current_batch) s of
              (Inl e, s') \<Rightarrow> (Inl e, s')
            | (Inr ok, s') \<Rightarrow> (Inr (), s')))"

text \<open>The three steps for an image; the result is the new \<^verbatim>\<open>uploaded_count\<close>.\<close>

definition handle_image ::
  "'w doc_api \<Rightarrow> string \<Rightarrow> string option \<Rightarrow> string \<Rightarrow> nat \<Rightarrow> 'w wstate \<Rightarrow> (error + nat) \<times> 'w wstate" where
  "handle_image api md_path doc_id image_path uploaded_count s =
     (case invoke (CreateImageBlock doc_id doc_id) (api_create_image_block api doc_id doc_id) s of
        (Some (c # cs), s1) \<Rightarrow>
          (case invoke (Upload md_path image_path (c # cs))
                  (api_upload api md_path image_path (c # cs)) s1 of
             (Inl e, s2) \<Rightarrow> (Inl e, s2)
           | (Inr (Some (t # ts)), s2) \<Rightarrow>
               (case invoke (ReplaceImageToken doc_id (c # cs) (t # ts))
                       (api_replace_image_token api doc_id (c # cs) (t # ts)) s2 of
                  (ok, s3) \<Rightarrow> (Inr (if ok then uploaded_count + 1 else uploaded_count), s3))
           | (Inr _, s2) \<Rightarrow> (Inr uploaded_count, s2))
      | (_, s1) \<Rightarrow> (Inr uploaded_count, s1))"

definition handle_table ::
  "'w doc_api \<Rightarrow> string option \<Rightarrow> string list list \<Rightarrow> 'w wstate \<Rightarrow> 'w wstate" where
  "handle_table api doc_id table_data s =
     (let rows = length table_data;
          cols = max_row_len table_data
      in if rows > 0 \<and> cols > 0 then
           (case invoke (CreateTable doc_id doc_id rows cols)
                   (api_create_table api doc_id doc_id rows cols) s of
              (Some (c # cs), s1) \<Rightarrow>
                snd (invoke (FillTable doc_id (c # cs) table_data)
                       (api_fill_table api doc_id (c # cs) table_data) s1)
            | (_, s1) \<Rightarrow> s1)
         else s)"

text \<open>
  The loop \<^verbatim>\<open>for i, block in enumerate(blocks)\<close> at position \<open>i\<close> with the blocks still to
  visit, and the flush after it.
\<close>

fun write_loop ::
  "'w doc_api \<Rightarrow> string \<Rightarrow> string option \<Rightarrow> (nat \<Rightarrow> (string \<times> bool) option) \<Rightarrow>
   (nat \<Rightarrow> string list list option) \<Rightarrow> nat \<Rightarrow> block list \<Rightarrow> block list \<Rightarrow> nat \<Rightarrow> 'w wstate \<Rightarrow>
   (error + nat) \<times> 'w wstate" where
  "write_loop api md_path doc_id image_map table_map i [] current_batch uploaded_count s =
     (case flush api doc_id current_batch s of
        (Inl e, s') \<Rightarrow> (Inl e, s')
      | (Inr u, s') \<Rightarrow> (Inr uploaded_count, s'))"
| "write_loop api md_path doc_id image_map table_map i (b # rest) current_batch uploaded_count s =
     (case image_map i of
        Some (image_path, is_url) \<Rightarrow>
          (case flush api doc_id current_batch s of
             (Inl e, s1) \<Rightarrow> (Inl e, s1)
           | (Inr u, s1) \<Rightarrow>
               (case handle_image api md_path doc_id image_path uploaded_count s1 of
                  (Inl e, s2) \<Rightarrow> (Inl e, s2)
                | (Inr uploaded_count', s2) \<Rightarrow>
                    write_loop api md_path doc_id image_map table_map (Suc i) rest []
                      uploaded_count' s2))
      | None \<Rightarrow>
          (case table_map i of
             Some table_data \<Rightarrow>
               (case flush api doc_id current_batch s of
                  (Inl e, s1) \<Rightarrow> (Inl e, s1)
                | (Inr u, s1) \<Rightarrow>
                    write_loop api md_path doc_id image_map table_map (Suc i) rest []
                      uploaded_count (handle_table api doc_id table_data s1))
           | None \<Rightarrow>
               write_loop api md_path doc_id image_map table_map (Suc i) rest
                 (current_batch @ [b]) uploaded_count s))"

definition write_content_with_images ::
  "'w doc_api \<Rightarrow> string \<Rightarrow> string option \<Rightarrow> block list \<Rightarrow> (nat \<times> string \<times> bool) list \<Rightarrow>
   (nat \<times> string list list) list \<Rightarrow> 'w wstate \<Rightarrow> (error + nat) \<times> 'w wstate" where
  "write_content_with_images api md_path doc_id blocks pending_imgs pending_tbls s =
     write_loop api md_path doc_id (image_map_of pending_imgs) (table_map_of pending_tbls)
       0 blocks [] 0 s"

text \<open>
  \<^verbatim>\<open>write_file\<close>. The platform gives the file (\<open>None\<close> when the path does not exist), the
  stem of the path and the environment variables. The result dictionary is a record; a
  key that is absent is \<open>None\<close>. The messages in the source language are constructors.
\<close>

record platform =
  read_file :: "string \<Rightarrow> string option"
  path_stem :: "string \<Rightarrow> string"
  getenv :: "string \<Rightarrow> string option"

datatype message =
    FileNotFound string
  | MessageText string
  | WikiSpaceNotConfigured
  | CreateWikiDocumentFailed
  | CreateDocumentFailed
  | DocumentCreated string

record write_result =
  success :: bool
  document_id :: "string option"
  message :: message
  existing_doc :: "file_entry option"
  node_token :: "string option"
  uploaded_images :: "nat option"

definition failure :: "message \<Rightarrow> write_result" where
  "failure m = \<lparr>success = False, document_id = None, message = m, existing_doc = None,
                node_token = None, uploaded_images = None\<rparr>"

definition duplicate_result :: "file_entry \<Rightarrow> string \<Rightarrow> write_result" where
  "duplicate_result doc title =
     \<lparr>success = False, document_id = None,
      message = MessageText (''duplicate:'' @ id_text (token doc) @ '':'' @ title),
      existing_doc = Some doc, node_token = None, uploaded_images = None\<rparr>"

text \<open>The check for a duplicate: the first listed document whose name is the title.\<close>

definition find_existing ::
  "'w doc_api \<Rightarrow> bool \<Rightarrow> string option \<Rightarrow> string \<Rightarrow> 'w wstate \<Rightarrow>
   (error + file_entry option) \<times> 'w wstate" where
  "find_existing api check_duplicate folder_token title s =
     (case folder_token of
        Some (c # cs) \<Rightarrow>
          if check_duplicate then
            (case invoke (ListDocumentsInFolder (c # cs))
                    (api_list_documents_in_folder api (c # cs)) s of
               (Inl e, s') \<Rightarrow> (Inl e, s')
             | (Inr docs, s') \<Rightarrow> (Inr (find (\<lambda>doc. name doc = Some title) docs), s'))
          else (Inr None, s)
      | _ \<Rightarrow> (Inr None, s))"

definition write_to_wiki ::
  "'w doc_api \<Rightarrow> platform \<Rightarrow> string \<Rightarrow> string \<Rightarrow> string option \<Rightarrow> block list \<Rightarrow> parser_state \<Rightarrow>
   'w wstate \<Rightarrow> (error + write_result) \<times> 'w wstate" where
  "write_to_wiki api env md_path title wiki_token blocks pst s =
     (let wiki_node_token =
            (if truthy wiki_token then wiki_token
             else getenv env ''FEISHU_DEFAULT_WIKI_NODE_TOKEN'')
      in case (case (wiki_node_token, getenv env ''FEISHU_DEFAULT_WIKI_SPACE_ID'') of
                 (Some (c # cs), Some (d # ds)) \<Rightarrow> (Inr (Some (d # ds)), s)
               | (Some (c # cs), _) \<Rightarrow>
                   invoke (GetWikiSpaceId (c # cs)) (api_get_wiki_space_id api (c # cs)) s
               | (_, space) \<Rightarrow> (Inr space, s)) of
           (Inl e, s1) \<Rightarrow> (Inl e, s1)
         | (Inr (Some (d # ds)), s1) \<Rightarrow>
             (case invoke (CreateWikiDocument title (d # ds) wiki_node_token)
                     (api_create_wiki_document api title (d # ds) wiki_node_token) s1 of
                (Inl e, s2) \<Rightarrow> (Inr (failure CreateWikiDocumentFailed), s2)
              | (Inr (doc_id, node), s2) \<Rightarrow>
                  (case write_content_with_images api md_path doc_id blocks
                          (pending_images pst) (pending_tables pst) s2 of
                     (Inl e, s3) \<Rightarrow> (Inl e, s3)
                   | (Inr uploaded, s3) \<Rightarrow>
                       (Inr \<lparr>success = True, document_id = doc_id,
                             message = DocumentCreated title, existing_doc = None,
                             node_token = node, uploaded_images = Some uploaded\<rparr>, s3)))
         | (Inr _, s1) \<Rightarrow> (Inr (failure WikiSpaceNotConfigured), s1))"

definition write_to_space ::
  "'w doc_api \<Rightarrow> string \<Rightarrow> string \<Rightarrow> string \<Rightarrow> string option \<Rightarrow> block list \<Rightarrow> parser_state \<Rightarrow>
   'w wstate \<Rightarrow> (error + write_result) \<times> 'w wstate" where
  "write_to_space api md_path title target folder_token blocks pst s =
     (let folder = (if target = ''folder'' then folder_token else None)
      in case invoke (CreateDocument title folder) (api_create_document api title folder) s of
           (Inl e, s1) \<Rightarrow> (Inr (failure CreateDocumentFailed), s1)
         | (Inr (doc_id, root_block_id), s1) \<Rightarrow>
             (case write_content_with_images api md_path doc_id blocks
                     (pending_images pst) (pending_tables pst) s1 of
                (Inl e, s2) \<Rightarrow> (Inl e, s2)
              | (Inr uploaded, s2) \<Rightarrow>
                  (Inr \<lparr>success = True, document_id = doc_id,
                        message = DocumentCreated title, existing_doc = None,
                        node_token = None, uploaded_images = Some uploaded\<rparr>, s2)))"

definition write_file ::
  "'w doc_api \<Rightarrow> platform \<Rightarrow> string \<Rightarrow> string \<Rightarrow> string option \<Rightarrow> string option \<Rightarrow> bool \<Rightarrow>
   'w wstate \<Rightarrow> (error + write_result) \<times> 'w wstate" where
  "write_file api env md_path target folder_token wiki_token check_duplicate s =
     (case read_file env md_path of
        None \<Rightarrow> (Inr (failure (FileNotFound md_path)), s)
      | Some md \<Rightarrow>
          (let title = path_stem env md_path
           in case parse_new md of
                (blocks, pst) \<Rightarrow>
                  (case find_existing api check_duplicate folder_token title s of
                     (Inl e, s1) \<Rightarrow> (Inl e, s1)
                   | (Inr (Some doc), s1) \<Rightarrow> (Inr (duplicate_result doc title), s1)
                   | (Inr None, s1) \<Rightarrow>
                       if target = ''wiki''
                       then write_to_wiki api env md_path title wiki_token blocks pst s1
                       else write_to_space api md_path title target folder_token blocks pst s1)))"

section \<open>Document order of the calls\<close>

text \<open>
  What a call puts under the root of the document: an append puts its blocks, the
  creation of an image block or of a table puts that block; the other calls work on
  blocks that are already there.
\<close>

datatype placed = PlacedBlock block | PlacedImage | PlacedTable nat nat

fun placed_by :: "call \<Rightarrow> placed list" where
  "placed_by (AppendBlocks d p batch) = map PlacedBlock batch"
| "placed_by (CreateImageBlock d p) = [PlacedImage]"
| "placed_by (CreateTable d p rows cols) = [PlacedTable rows cols]"
| "placed_by c = []"

definition placed_view :: "call list \<Rightarrow> placed list" where
  "placed_view calls = concat (map placed_by calls)"

fun is_append :: "call \<Rightarrow> bool" where
  "is_append (AppendBlocks d p batch) = True"
| "is_append c = False"

text \<open>A call that places something is addressed to the root of the document, and an
  append carries at least one block.\<close>

fun at_root :: "string option \<Rightarrow> call \<Rightarrow> bool" where
  "at_root doc_id (AppendBlocks d p batch) = (d = doc_id \<and> p = doc_id \<and> batch \<noteq> [])"
| "at_root doc_id (CreateImageBlock d p) = (d = doc_id \<and> p = doc_id)"
| "at_root doc_id (CreateTable d p rows cols) = (d = doc_id \<and> p = doc_id)"
| "at_root doc_id c = True"

text \<open>
  The block sequence in document order, from position \<open>i\<close> on, as what has to stand
  under the root: an image block at a position flagged as an image, a table of the
  dimensions of the grid at a position flagged as a table (nothing when a dimension is
  zero), and the block itself at any other position.
\<close>

fun document_order ::
  "(nat \<Rightarrow> (string \<times> bool) option) \<Rightarrow> (nat \<Rightarrow> string list list option) \<Rightarrow> nat \<Rightarrow> block list \<Rightarrow>
   placed list" where
  "document_order image_map table_map i [] = []"
| "document_order image_map table_map i (b # rest) =
     (case image_map i of
        Some img \<Rightarrow> [PlacedImage]
      | None \<Rightarrow>
          (case table_map i of
             Some table_data \<Rightarrow>
               if length table_data > 0 \<and> max_row_len table_data > 0
               then [PlacedTable (length table_data) (max_row_len table_data)] else []
           | None \<Rightarrow> [PlacedBlock b]))
     @ document_order image_map table_map (Suc i) rest"

fun flagged_count ::
  "(nat \<Rightarrow> (string \<times> bool) option) \<Rightarrow> (nat \<Rightarrow> string list list option) \<Rightarrow> nat \<Rightarrow> block list \<Rightarrow> nat" where
  "flagged_count image_map table_map i [] = 0"
| "flagged_count image_map table_map i (b # rest) =
     (if image_map i \<noteq> None \<or> table_map i \<noteq> None then 1 else 0)
     + flagged_count image_map table_map (Suc i) rest"

text \<open>
  A run of calls keeps the order \<open>expected\<close>: what the calls place is a prefix of it, and
  all of it when the run finished; the placing calls go to the root; at most \<open>k\<close> of the
  calls are appends.
\<close>

definition keeps_order :: "string option \<Rightarrow> placed list \<Rightarrow> nat \<Rightarrow> bool \<Rightarrow> call list \<Rightarrow> bool" where
  "keeps_order doc_id expected k finished calls =
     (prefix (placed_view calls) expected \<and>
      (finished \<longrightarrow> placed_view calls = expected) \<and>
      list_all (at_root doc_id) calls \<and>
      length (filter is_append calls) \<le> k)"

lemma placed_view_append [simp]: "placed_view (xs @ ys) = placed_view xs @ placed_view ys"
  by (simp add: placed_view_def)

lemma keeps_order_Nil: "keeps_order doc_id [] 0 True []"
  by (simp add: keeps_order_def placed_view_def)

lemma keeps_order_seq:
  assumes "keeps_order doc_id e1 k1 True c1" and "keeps_order doc_id e2 k2 fin c2"
  shows "keeps_order doc_id (e1 @ e2) (k1 + k2) fin (c1 @ c2)"
  using assms by (auto simp: keeps_order_def)

lemma keeps_order_stop:
  assumes "keeps_order doc_id e1 k1 True c1"
  shows "keeps_order doc_id (e1 @ e2) (k1 + k2) False c1"
  using assms by (auto simp: keeps_order_def)

lemma invoke_calls: "invoke c operation s = (r, s') \<Longrightarrow> snd s' = snd s @ [c]"
  by (auto simp: invoke_def split: prod.splits)

lemma flush_order:
  assumes "flush api doc_id batch s = (r, s')"
  shows "\<exists>new. snd s' = snd s @ new \<and> keeps_order doc_id (map PlacedBlock batch) 1 True new"
proof (cases "batch = []")
  case True
  with assms have "snd s' = snd s @ []" by (simp add: flush_def)
  moreover from True have "keeps_order doc_id (map PlacedBlock batch) 1 True []"
    by (simp add: keeps_order_def placed_view_def)
  ultimately show ?thesis by blast
next
  case False
  obtain r1 s1 where inv: "invoke (AppendBlocks doc_id doc_id batch)
      (api_append_blocks api doc_id doc_id batch) s = (r1, s1)"
    by (cases "invoke (AppendBlocks doc_id doc_id batch)
      (api_append_blocks api doc_id doc_id batch) s") auto
  with assms False have "s' = s1" by (cases r1) (simp_all add: flush_def)
  with invoke_calls [OF inv] have "snd s' = snd s @ [AppendBlocks doc_id doc_id batch]" by simp
  moreover from False
  have "keeps_order doc_id (map PlacedBlock batch) 1 True [AppendBlocks doc_id doc_id batch]"
    by (simp add: keeps_order_def placed_view_def)
  ultimately show ?thesis by blast
qed

lemma handle_image_order:
  assumes "handle_image api md_path doc_id image_path n s = (r, s')"
  shows "\<exists>new. snd s' = snd s @ new \<and> keeps_order doc_id [PlacedImage] 0 True new"
proof -
  let ?c1 = "CreateImageBlock doc_id doc_id"
  obtain bid s1 where i1: "invoke ?c1 (api_create_image_block api doc_id doc_id) s = (bid, s1)"
    by (cases "invoke ?c1 (api_create_image_block api doc_id doc_id) s") auto
  note l1 = invoke_calls [OF i1]
  have k1: "keeps_order doc_id [PlacedImage] 0 True (?c1 # more)"
    if "\<forall>c\<in>set more. placed_by c = [] \<and> \<not> is_append c \<and> at_root doc_id c" for more
    using that by (induction more) (auto simp: keeps_order_def placed_view_def)
  show ?thesis
  proof (cases "truthy bid")
    case False
    with assms i1 have "s' = s1"
      by (auto simp: handle_image_def truthy_def split: option.splits list.splits)
    with l1 k1 [of "[]"] show ?thesis by auto
  next
    case True
    then obtain c cs where bid: "bid = Some (c # cs)"
      by (auto simp: truthy_def split: option.splits list.splits)
    let ?c2 = "Upload md_path image_path (c # cs)"
    obtain tok s2 where i2: "invoke ?c2 (api_upload api md_path image_path (c # cs)) s1 = (tok, s2)"
      by (cases "invoke ?c2 (api_upload api md_path image_path (c # cs)) s1") auto
    note l2 = invoke_calls [OF i2]
    show ?thesis
    proof (cases "\<exists>t ts. tok = Inr (Some (t # ts))")
      case False
      with assms i1 bid i2 have "s' = s2"
        by (auto simp: handle_image_def split: sum.splits option.splits list.splits)
      with l1 l2 k1 [of "[?c2]"] show ?thesis by auto
    next
      case True
      then obtain t ts where tok: "tok = Inr (Some (t # ts))" by blast
      let ?c3 = "ReplaceImageToken doc_id (c # cs) (t # ts)"
      obtain ok s3 where i3: "invoke ?c3
          (api_replace_image_token api doc_id (c # cs) (t # ts)) s2 = (ok, s3)"
        by (cases "invoke ?c3 (api_replace_image_token api doc_id (c # cs) (t # ts)) s2") auto
      note l3 = invoke_calls [OF i3]
      from assms i1 bid i2 tok i3 have "s' = s3" by (simp add: handle_image_def)
      with l1 l2 l3 k1 [of "[?c2, ?c3]"] show ?thesis by auto
    qed
  qed
qed

lemma handle_table_order:
  "\<exists>new. snd (handle_table api doc_id table_data s) = snd s @ new \<and>
     keeps_order doc_id
       (if length table_data > 0 \<and> max_row_len table_data > 0
        then [PlacedTable (length table_data) (max_row_len table_data)] else [])
       0 True new"
proof (cases "length table_data > 0 \<and> max_row_len table_data > 0")
  case False
  then have "handle_table api doc_id table_data s = s"
    by (auto simp: handle_table_def Let_def)
  with False keeps_order_Nil [of doc_id] show ?thesis by auto
next
  case True
  let ?c1 = "CreateTable doc_id doc_id (length table_data) (max_row_len table_data)"
  obtain tid s1 where i1: "invoke ?c1
      (api_create_table api doc_id doc_id (length table_data) (max_row_len table_data)) s = (tid, s1)"
    by (cases "invoke ?c1
      (api_create_table api doc_id doc_id (length table_data) (max_row_len table_data)) s") auto
  note l1 = invoke_calls [OF i1]
  show ?thesis
  proof (cases "truthy tid")
    case False
    with True i1 have "handle_table api doc_id table_data s = s1"
      by (auto simp: handle_table_def Let_def truthy_def split: option.splits list.splits)
    moreover have "keeps_order doc_id
        [PlacedTable (length table_data) (max_row_len table_data)] 0 True [?c1]"
      by (simp add: keeps_order_def placed_view_def)
    ultimately show ?thesis using True l1 by auto
  next
    case tr: True
    then obtain c cs where tid: "tid = Some (c # cs)"
      by (auto simp: truthy_def split: option.splits list.splits)
    let ?c2 = "FillTable doc_id (c # cs) table_data"
    obtain ok s2 where i2: "invoke ?c2 (api_fill_table api doc_id (c # cs) table_data) s1 = (ok, s2)"
      by (cases "invoke ?c2 (api_fill_table api doc_id (c # cs) table_data) s1") auto
    note l2 = invoke_calls [OF i2]
    from True i1 tid i2 have "handle_table api doc_id table_data s = s2"
      by (simp add: handle_table_def Let_def)
    moreover have "keeps_order doc_id
        [PlacedTable (length table_data) (max_row_len table_data)] 0 True [?c1, ?c2]"
      by (simp add: keeps_order_def placed_view_def)
    ultimately show ?thesis using True l1 l2 by auto
  qed
qed

lemma write_loop_order:
  "write_loop api md_path doc_id image_map table_map i rest batch n s = (res, s') \<Longrightarrow>
   \<exists>new. snd s' = snd s @ new \<and>
     keeps_order doc_id (map PlacedBlock batch @ document_order image_map table_map i rest)
       (Suc (flagged_count image_map table_map i rest)) (\<not> isl res) new"
proof (induction rest arbitrary: i batch n s res s')
  case Nil
  obtain r s1 where f: "flush api doc_id batch s = (r, s1)"
    by (cases "flush api doc_id batch s") auto
  from flush_order [OF f] obtain new where new: "snd s1 = snd s @ new"
    "keeps_order doc_id (map PlacedBlock batch) 1 True new" by blast
  from Nil f have "s' = s1" by (cases r) simp_all
  with new show ?case by (auto simp: keeps_order_def)
next
  case (Cons b rest)
  let ?tail = "document_order image_map table_map (Suc i) rest"
  let ?k = "flagged_count image_map table_map (Suc i) rest"
  show ?case
  proof (cases "image_map i = None \<and> table_map i = None")
    case True
    with Cons.prems have "write_loop api md_path doc_id image_map table_map (Suc i) rest
        (batch @ [b]) n s = (res, s')" by simp
    from Cons.IH [OF this] True show ?thesis by simp
  next
    case flagged: False
    define item where "item =
      (case image_map i of
        Some img \<Rightarrow> [PlacedImage]
      | None \<Rightarrow>
          (case table_map i of
             Some table_data \<Rightarrow>
               if length table_data > 0 \<and> max_row_len table_data > 0
               then [PlacedTable (length table_data) (max_row_len table_data)] else []
           | None \<Rightarrow> [PlacedBlock b]))"
    have expected: "map PlacedBlock batch @ document_order image_map table_map i (b # rest) =
        (map PlacedBlock batch @ item) @ ?tail"
      by (simp add: item_def)
    have count: "Suc (flagged_count image_map table_map i (b # rest)) = (1 + 0) + Suc ?k"
      using flagged by auto
    obtain r s1 where f: "flush api doc_id batch s = (r, s1)"
      by (cases "flush api doc_id batch s") auto
    from flush_order [OF f] obtain new1 where new1: "snd s1 = snd s @ new1"
      "keeps_order doc_id (map PlacedBlock batch) 1 True new1" by blast
    show ?thesis
    proof (cases r)
      case (Inl e)
      with Cons.prems f flagged have "res = Inl e" "s' = s1"
        by (auto split: option.splits)
      moreover have "keeps_order doc_id (map PlacedBlock batch @ (item @ ?tail)) (1 + (0 + Suc ?k))
          False new1"
        using new1(2) by (rule keeps_order_stop)
      ultimately show ?thesis using new1(1) expected count by auto
    next
      case (Inr u)
      show ?thesis
      proof (cases "image_map i")
        case (Some img)
        obtain image_path is_url where img: "img = (image_path, is_url)" by (cases img)
        obtain r2 s2 where h: "handle_image api md_path doc_id image_path n s1 = (r2, s2)"
          by (cases "handle_image api md_path doc_id image_path n s1") auto
        from handle_image_order [OF h] obtain new2 where new2: "snd s2 = snd s1 @ new2"
          "keeps_order doc_id [PlacedImage] 0 True new2" by blast
        have it: "item = [PlacedImage]" using Some by (simp add: item_def)
        have k12: "keeps_order doc_id (map PlacedBlock batch @ item) (1 + 0) True (new1 @ new2)"
          unfolding it using new1(2) new2(2) by (rule keeps_order_seq)
        show ?thesis
        proof (cases r2)
          case (Inl e)
          with Cons.prems f Inr Some img h have "res = Inl e" "s' = s2" by simp_all
          moreover have "keeps_order doc_id ((map PlacedBlock batch @ item) @ ?tail)
              ((1 + 0) + Suc ?k) False (new1 @ new2)"
            using k12 by (rule keeps_order_stop)
          ultimately show ?thesis using new1(1) new2(1) expected count by auto
        next
          case (Inr n')
          with Cons.prems f \<open>r = Inr u\<close> Some img h
          have "write_loop api md_path doc_id image_map table_map (Suc i) rest [] n' s2 = (res, s')"
            by simp
          from Cons.IH [OF this] obtain new3 where new3: "snd s' = snd s2 @ new3"
            "keeps_order doc_id ?tail (Suc ?k) (\<not> isl res) new3" by auto
          have "keeps_order doc_id ((map PlacedBlock batch @ item) @ ?tail)
              ((1 + 0) + Suc ?k) (\<not> isl res) ((new1 @ new2) @ new3)"
            using k12 new3(2) by (rule keeps_order_seq)
          moreover have "snd s' = snd s @ (new1 @ new2) @ new3"
            using new1(1) new2(1) new3(1) by simp
          ultimately show ?thesis using expected count by metis
        qed
      next
        case None
        with flagged obtain table_data where tm: "table_map i = Some table_data" by auto
        from handle_table_order [of api doc_id table_data s1]
        obtain new2 where new2: "snd (handle_table api doc_id table_data s1) = snd s1 @ new2"
          "keeps_order doc_id item 0 True new2"
          using None tm by (auto simp: item_def)
        have k12: "keeps_order doc_id (map PlacedBlock batch @ item) (1 + 0) True (new1 @ new2)"
          using new1(2) new2(2) by (rule keeps_order_seq)
        from Cons.prems f Inr None tm
        have "write_loop api md_path doc_id image_map table_map (Suc i) rest [] n
            (handle_table api doc_id table_data s1) = (res, s')"
          by simp
        from Cons.IH [OF this] obtain new3 where
          new3: "snd s' = snd (handle_table api doc_id table_data s1) @ new3"
          "keeps_order doc_id ?tail (Suc ?k) (\<not> isl res) new3" by auto
        have "keeps_order doc_id ((map PlacedBlock batch @ item) @ ?tail)
            ((1 + 0) + Suc ?k) (\<not> isl res) ((new1 @ new2) @ new3)"
          using k12 new3(2) by (rule keeps_order_seq)
        moreover have "snd s' = snd s @ (new1 @ new2) @ new3"
          using new1(1) new2(1) new3(1) by simp
        ultimately show ?thesis using expected count by metis
      qed
    qed
  qed
qed

text \<open>
  The batches of the appends among the calls, and the batches the block sequence asks
  for: the sequence from position \<open>i\<close> on is cut at the flagged positions, \<open>run\<close> being
  the ordinary blocks gathered since the last cut; the runs that are not empty are the
  batches.
\<close>

fun appended_batches :: "call list \<Rightarrow> block list list" where
  "appended_batches [] = []"
| "appended_batches (AppendBlocks d p batch # calls) = batch # appended_batches calls"
| "appended_batches (c # calls) = appended_batches calls"


lemma appended_batches_append [simp]:
  "appended_batches (xs @ ys) = appended_batches xs @ appended_batches ys"
  by (induction xs rule: appended_batches.induct) simp_all






text \<open>An environment in which every operation succeeds; its state counts the operations.\<close>

definition accepting_api :: "nat doc_api" where
  "accepting_api =
     \<lparr>api_append_blocks = (\<lambda>d p batch w. (Inr True, Suc w)),
      api_create_image_block = (\<lambda>d p w. (Some ''img1'', Suc w)),
      api_upload = (\<lambda>md_path src parent w. (Inr (Some ''tok1''), Suc w)),
      api_replace_image_token = (\<lambda>d b t w. (True, Suc w)),
      api_create_table = (\<lambda>d p rows cols w. (Some ''tbl1'', Suc w)),
      api_fill_table = (\<lambda>d t table_data w. (True, Suc w)),
      api_list_documents_in_folder =
        (\<lambda>folder w. (Inr [\<lparr>name = Some ''other'', token = Some ''t0''\<rparr>,
                            \<lparr>name = Some ''notes'', token = Some ''t1''\<rparr>], Suc w)),
      api_create_document = (\<lambda>title folder w. (Inr (Some ''doc1'', Some ''doc1''), Suc w)),
      api_create_wiki_document =
        (\<lambda>title space parent w. (Inr (Some ''doc1'', Some ''node1''), Suc w)),
      api_get_wiki_space_id = (\<lambda>node w. (Inr (Some ''space1''), Suc w))\<rparr>"


section \<open>Pending positions and placeholders\<close>

text \<open>
  The invariant of the parser's loop: each pending entry points at its placeholder in
  the blocks built so far, and each placeholder built so far is pointed at.
\<close>

definition pending_ok :: "block list \<Rightarrow> parser_state \<Rightarrow> bool" where
  "pending_ok blocks st =
     (list_all (\<lambda>(i, p, u). i < length blocks \<and> blocks ! i = ImagePlaceholder p u)
        (pending_images st) \<and>
      list_all (\<lambda>(i, d). i < length blocks \<and>
                  blocks ! i = TablePlaceholder d (length d) (max_row_len d))
        (pending_tables st) \<and>
      list_all (\<lambda>i. (is_image_placeholder (blocks ! i) \<longrightarrow> i \<in> set (map fst (pending_images st))) \<and>
                    (is_table_placeholder (blocks ! i) \<longrightarrow> i \<in> set (map fst (pending_tables st))))
        [0..<length blocks])"

lemma pending_ok_plain:
  assumes "pending_ok blocks st" and "\<forall>b\<in>set new. \<not> is_placeholder b"
  shows "pending_ok (blocks @ new) st"
  using assms
  by (auto simp: pending_ok_def list_all_iff nth_append is_placeholder_def)

lemma pending_ok_image:
  assumes "pending_ok blocks st"
  shows "pending_ok (blocks @ [ImagePlaceholder p u])
           (st\<lparr>pending_images := pending_images st @ [(length blocks, p, u)]\<rparr>)"
  using assms
  by (auto simp: pending_ok_def list_all_iff nth_append)

lemma pending_ok_table:
  assumes "pending_ok blocks st"
  shows "pending_ok (blocks @ [TablePlaceholder d (length d) (max_row_len d)])
           (st\<lparr>pending_tables := pending_tables st @ [(length blocks, d)]\<rparr>)"
  using assms
  by (auto simp: pending_ok_def list_all_iff nth_append)

lemma parse_step_pending_ok:
  assumes "parse_step ls (length blocks) st = (new, k, st')" and "pending_ok blocks st"
  shows "pending_ok (blocks @ new) st'"
proof (cases ls)
  case Nil
  with assms show ?thesis by simp
next
  case (Cons line rest)
  from assms(1) [unfolded Cons] show ?thesis
  proof (cases rule: parse_step_cases)
    case (table table_data)
    with pending_ok_table [OF assms(2)] show ?thesis by simp
  next
    case (image img_path is_url)
    with pending_ok_image [OF assms(2)] show ?thesis by simp
  next
    case heading
    with pending_ok_plain [OF assms(2), of new] show ?thesis
      by (simp add: create_heading_block_def is_placeholder_def)
  next
    case code
    with pending_ok_plain [OF assms(2), of new] show ?thesis
      by (simp add: create_code_block_def is_placeholder_def)
  next
    case quote
    with pending_ok_plain [OF assms(2), of new] show ?thesis
      by (simp add: create_quote_block_def is_placeholder_def)
  next
    case bullet
    with pending_ok_plain [OF assms(2), of new] show ?thesis
      by (auto simp: create_bullet_block_def is_placeholder_def)
  next
    case ordered
    with pending_ok_plain [OF assms(2), of new] show ?thesis
      by (auto simp: create_ordered_block_def is_placeholder_def)
  next
    case divider
    with pending_ok_plain [OF assms(2), of new] show ?thesis
      by (simp add: create_divider_block_def is_placeholder_def)
  next
    case para
    with pending_ok_plain [OF assms(2), of new] show ?thesis
      by (simp add: create_text_block_def is_placeholder_def)
  next
    case blank
    with assms(2) show ?thesis by simp
  qed
qed

lemma parse_loop_pending_ok:
  "pending_ok blocks st \<Longrightarrow> parse_loop ls blocks st = (blocks', st') \<Longrightarrow> pending_ok blocks' st'"
proof (induction ls blocks st rule: parse_loop.induct)
  case (1 ls blocks st)
  show ?case
  proof (cases "ls = []")
    case True
    with 1 show ?thesis by (simp add: parse_loop_Nil)
  next
    case False
    obtain new k st1 where s: "parse_step ls (length blocks) st = (new, k, st1)"
      by (cases "parse_step ls (length blocks) st") auto
    from parse_step_pending_ok [OF s "1.prems"(1)] have ok: "pending_ok (blocks @ new) st1" .
    from "1.prems"(2) parse_loop_step [OF False s]
    have "parse_loop (drop k ls) (blocks @ new) st1 = (blocks', st')" by simp
    from "1.IH" [OF False s [symmetric] refl ok this] show ?thesis .
  qed
qed

lemma document_order_blocks:
  "PlacedBlock x \<in> set (document_order image_map table_map i rest) \<Longrightarrow>
   \<exists>j<length rest. x = rest ! j \<and> image_map (i + j) = None \<and> table_map (i + j) = None"
proof (induction rest arbitrary: i)
  case Nil
  then show ?case by simp
next
  case (Cons b rest)
  show ?case
  proof (cases "PlacedBlock x \<in> set (document_order image_map table_map (Suc i) rest)")
    case True
    from Cons.IH [OF this] obtain j where "j < length rest" "x = rest ! j"
      "image_map (Suc i + j) = None" "table_map (Suc i + j) = None" by blast
    then have "Suc j < length (b # rest) \<and> x = (b # rest) ! Suc j \<and>
        image_map (i + Suc j) = None \<and> table_map (i + Suc j) = None" by simp
    then show ?thesis by blast
  next
    case False
    with Cons.prems have "x = b \<and> image_map i = None \<and> table_map i = None"
      by (auto split: option.splits if_splits)
    then have "0 < length (b # rest) \<and> x = (b # rest) ! 0 \<and>
        image_map (i + 0) = None \<and> table_map (i + 0) = None" by simp
    then show ?thesis by blast
  qed
qed

lemma map_of_rev_None: "(map_of (rev xs) i = None) = (i \<notin> set (map fst xs))"
  by (simp add: map_of_eq_None_iff)

text \<open>
  Claim C10. After \<^verbatim>\<open>parse\<close> on a parser just built, every entry of the pending images
  has at its position the image placeholder of its path, and every entry of the pending
  tables has at its position the table placeholder of its grid. The interleaved write on
  these blocks and lists never puts a placeholder into an append, whatever the operations
  answer.
\<close>

theorem pending_entries_point_at_placeholders:
  assumes "parse_new md = (blocks, pst)"
  shows "list_all (\<lambda>(i, p, u). i < length blocks \<and> blocks ! i = ImagePlaceholder p u)
           (pending_images pst) \<and>
         list_all (\<lambda>(i, d). i < length blocks \<and>
                     blocks ! i = TablePlaceholder d (length d) (max_row_len d))
           (pending_tables pst) \<and>
         (write_content_with_images api md_path doc_id blocks
            (pending_images pst) (pending_tables pst) (w, []) = (res, s') \<longrightarrow>
          (\<forall>d p batch. AppendBlocks d p batch \<in> set (snd s') \<longrightarrow>
             (\<forall>x\<in>set batch. \<not> is_placeholder x)))"
proof -
  have init: "pending_ok [] new_parser"
    by (simp add: pending_ok_def new_parser_def)
  from assms have "parse_loop (split_on NL md) [] new_parser = (blocks, pst)"
    by (simp add: parse_new_def parse_def)
  from parse_loop_pending_ok [OF init this] have ok: "pending_ok blocks pst" .
  have batches: "\<forall>x\<in>set batch. \<not> is_placeholder x"
    if run: "write_content_with_images api md_path doc_id blocks
            (pending_images pst) (pending_tables pst) (w, []) = (res, s')"
      and mem: "AppendBlocks d p batch \<in> set (snd s')" for d p batch
  proof
    fix x assume x: "x \<in> set batch"
    from write_loop_order [OF run [unfolded write_content_with_images_def]]
    have pre: "prefix (placed_view (snd s'))
        (document_order (image_map_of (pending_images pst)) (table_map_of (pending_tables pst))
           0 blocks)"
      by (auto simp: keeps_order_def)
    from mem x have "PlacedBlock x \<in> set (placed_view (snd s'))"
      by (force simp: placed_view_def)
    with pre have "PlacedBlock x \<in> set (document_order (image_map_of (pending_images pst))
        (table_map_of (pending_tables pst)) 0 blocks)"
      by (auto simp: prefix_def)
    from document_order_blocks [OF this] obtain j where j: "j < length blocks" "x = blocks ! j"
      "image_map_of (pending_images pst) j = None" "table_map_of (pending_tables pst) j = None"
      by auto
    from j(3,4) have "j \<notin> set (map fst (pending_images pst))"
      "j \<notin> set (map fst (pending_tables pst))"
      by (simp_all add: image_map_of_def table_map_of_def map_of_rev_None)
    with ok j(1) have "\<not> is_image_placeholder (blocks ! j)" "\<not> is_table_placeholder (blocks ! j)"
      by (auto simp: pending_ok_def list_all_iff)
    with j(2) show "\<not> is_placeholder x" by (simp add: is_placeholder_def)
  qed
  from ok batches show ?thesis by (auto simp: pending_ok_def)
qed

theorem pending_entries_point_at_placeholders_witness:
  "parse_new (''a'' @ NL # ''![x](p.png)'' @ NL # ''| c |'' @ NL # ''---'') =
     ([TextBlock [plain_run ''a''], ImagePlaceholder ''p.png'' False,
       TablePlaceholder [[''c'']] 1 1, Divider],
      \<lparr>pending_images = [(1, ''p.png'', False)], pending_tables = [(2, [[''c'']])]\<rparr>) \<and>
   write_content_with_images accepting_api ''a.md'' (Some ''doc1'')
      [TextBlock [plain_run ''a''], ImagePlaceholder ''p.png'' False,
       TablePlaceholder [[''c'']] 1 1, Divider]
      [(1, ''p.png'', False)] [(2, [[''c'']])] (0, []) =
     (Inr 1, 7,
      [AppendBlocks (Some ''doc1'') (Some ''doc1'') [TextBlock [plain_run ''a'']],
       CreateImageBlock (Some ''doc1'') (Some ''doc1''),
       Upload ''a.md'' ''p.png'' ''img1'',
       ReplaceImageToken (Some ''doc1'') ''img1'' ''tok1'',
       CreateTable (Some ''doc1'') (Some ''doc1'') 1 1,
       FillTable (Some ''doc1'') ''tbl1'' [[''c'']],
       AppendBlocks (Some ''doc1'') (Some ''doc1'') [Divider]]) \<and>
   \<not> is_placeholder (TextBlock [plain_run ''a'']) \<and> \<not> is_placeholder Divider"
proof -
  have p: "parse_new (''a'' @ NL # ''![x](p.png)'' @ NL # ''| c |'' @ NL # ''---'') =
     ([TextBlock [plain_run ''a''], ImagePlaceholder ''p.png'' False,
       TablePlaceholder [[''c'']] 1 1, Divider],
      \<lparr>pending_images = [(1, ''p.png'', False)], pending_tables = [(2, [[''c'']])]\<rparr>)"
    by code_simp
  have run: "write_content_with_images accepting_api ''a.md'' (Some ''doc1'')
      [TextBlock [plain_run ''a''], ImagePlaceholder ''p.png'' False,
       TablePlaceholder [[''c'']] 1 1, Divider]
      (pending_images \<lparr>pending_images = [(1, ''p.png'', False)], pending_tables = [(2, [[''c'']])]\<rparr>)
      (pending_tables \<lparr>pending_images = [(1, ''p.png'', False)], pending_tables = [(2, [[''c'']])]\<rparr>)
      (0, []) =
     (Inr 1, 7,
      [AppendBlocks (Some ''doc1'') (Some ''doc1'') [TextBlock [plain_run ''a'']],
       CreateImageBlock (Some ''doc1'') (Some ''doc1''),
       Upload ''a.md'' ''p.png'' ''img1'',
       ReplaceImageToken (Some ''doc1'') ''img1'' ''tok1'',
       CreateTable (Some ''doc1'') (Some ''doc1'') 1 1,
       FillTable (Some ''doc1'') ''tbl1'' [[''c'']],
       AppendBlocks (Some ''doc1'') (Some ''doc1'') [Divider]])"
    by code_simp
  from pending_entries_point_at_placeholders [OF p, of accepting_api "''a.md''" "Some ''doc1''" 0
      "Inr 1" "(7,
      [AppendBlocks (Some ''doc1'') (Some ''doc1'') [TextBlock [plain_run ''a'']],
       CreateImageBlock (Some ''doc1'') (Some ''doc1''),
       Upload ''a.md'' ''p.png'' ''img1'',
       ReplaceImageToken (Some ''doc1'') ''img1'' ''tok1'',
       CreateTable (Some ''doc1'') (Some ''doc1'') 1 1,
       FillTable (Some ''doc1'') ''tbl1'' [[''c'']],
       AppendBlocks (Some ''doc1'') (Some ''doc1'') [Divider]])"] run
  have "\<forall>d p batch. AppendBlocks d p batch \<in> set
      [AppendBlocks (Some ''doc1'') (Some ''doc1'') [TextBlock [plain_run ''a'']],
       CreateImageBlock (Some ''doc1'') (Some ''doc1''),
       Upload ''a.md'' ''p.png'' ''img1'',
       ReplaceImageToken (Some ''doc1'') ''img1'' ''tok1'',
       CreateTable (Some ''doc1'') (Some ''doc1'') 1 1,
       FillTable (Some ''doc1'') ''tbl1'' [[''c'']],
       AppendBlocks (Some ''doc1'') (Some ''doc1'') [Divider]] \<longrightarrow>
      (\<forall>x\<in>set batch. \<not> is_placeholder x)"
    by simp
  then have "\<not> is_placeholder (TextBlock [plain_run ''a'']) \<and> \<not> is_placeholder Divider"
    by fastforce
  with p run show ?thesis by simp
qed

section \<open>Duplicate detection\<close>

text \<open>
  Claim C9. With duplicate checking on and a non-empty folder token, when the listing of
  the folder holds an item whose name is the title (the stem of the path), \<^verbatim>\<open>write_file\<close>
  returns the duplicate result with such an item (the first one listed) as
  \<^verbatim>\<open>existing_doc\<close>, and the only call it makes is the listing: no document is created and
  nothing is written. The listing of the client returns the files of an accepted reply.
\<close>

theorem duplicate_short_circuits:
  "(read_file env md_path = Some md \<and>
    fst (api_list_documents_in_folder api (c # cs) (fst s)) = Inr docs \<and>
    (\<exists>doc\<in>set docs. name doc = Some (path_stem env md_path)) \<longrightarrow>
    (\<exists>doc. doc \<in> set docs \<and> name doc = Some (path_stem env md_path) \<and>
       fst (write_file api env md_path target (Some (c # cs)) wiki_token True s) =
         Inr \<lparr>success = False, document_id = None,
              message = MessageText (''duplicate:'' @ id_text (token doc) @ '':'' @
                          path_stem env md_path),
              existing_doc = Some doc, node_token = None, uploaded_images = None\<rparr> \<and>
       snd (snd (write_file api env md_path target (Some (c # cs)) wiki_token True s)) =
         snd s @ [ListDocumentsInFolder (c # cs)])) \<and>
   (fst (srv (GetFiles folder) (fst s0)) = Reply 0 d \<longrightarrow>
      fst (list_documents_in_folder srv folder s0) = Inr (files d))"
proof -
  have part1: "\<exists>doc. doc \<in> set docs \<and> name doc = Some (path_stem env md_path) \<and>
       fst (write_file api env md_path target (Some (c # cs)) wiki_token True s) =
         Inr \<lparr>success = False, document_id = None,
              message = MessageText (''duplicate:'' @ id_text (token doc) @ '':'' @
                          path_stem env md_path),
              existing_doc = Some doc, node_token = None, uploaded_images = None\<rparr> \<and>
       snd (snd (write_file api env md_path target (Some (c # cs)) wiki_token True s)) =
         snd s @ [ListDocumentsInFolder (c # cs)]"
    if rd: "read_file env md_path = Some md"
      and ls: "fst (api_list_documents_in_folder api (c # cs) (fst s)) = Inr docs"
      and ex: "\<exists>doc\<in>set docs. name doc = Some (path_stem env md_path)"
  proof -
    let ?title = "path_stem env md_path"
    from ex obtain doc where f: "find (\<lambda>doc. name doc = Some ?title) docs = Some doc"
      by (cases "find (\<lambda>doc. name doc = Some ?title) docs") (auto simp: find_None_iff)
    then have mem: "doc \<in> set docs" and nm: "name doc = Some ?title"
      by (auto simp: find_Some_iff)
    obtain w' where w': "api_list_documents_in_folder api (c # cs) (fst s) = (Inr docs, w')"
      using ls by (cases "api_list_documents_in_folder api (c # cs) (fst s)") auto
    have fe: "find_existing api True (Some (c # cs)) ?title s =
        (Inr (Some doc), (w', snd s @ [ListDocumentsInFolder (c # cs)]))"
      using w' f by (simp add: find_existing_def invoke_def)
    obtain blocks pst where p: "parse_new md = (blocks, pst)" by (cases "parse_new md")
    have "write_file api env md_path target (Some (c # cs)) wiki_token True s =
        (Inr (duplicate_result doc ?title), (w', snd s @ [ListDocumentsInFolder (c # cs)]))"
      using rd p fe by (simp add: write_file_def)
    with mem nm show ?thesis by (auto simp: duplicate_result_def)
  qed
  have part2: "fst (list_documents_in_folder srv folder s0) = Inr (files d)"
    if "fst (srv (GetFiles folder) (fst s0)) = Reply 0 d"
    using that by (cases "srv (GetFiles folder) (fst s0)")
      (simp add: list_documents_in_folder_def send_def)
  from part1 part2 show ?thesis by blast
qed

definition notes_platform :: platform where
  "notes_platform =
     \<lparr>read_file = (\<lambda>p. if p = ''dir/notes.md'' then Some ''# hi'' else None),
      path_stem = (\<lambda>p. ''notes''),
      getenv = (\<lambda>v. None)\<rparr>"

theorem duplicate_short_circuits_witness:
  "write_file accepting_api notes_platform ''dir/notes.md'' ''folder'' (Some ''fld'') None True (0, []) =
     (Inr \<lparr>success = False, document_id = None,
           message = MessageText ''duplicate:t1:notes'',
           existing_doc = Some \<lparr>name = Some ''notes'', token = Some ''t1''\<rparr>,
           node_token = None, uploaded_images = None\<rparr>,
      (1, [ListDocumentsInFolder ''fld'']))"
proof -
  have rd: "read_file notes_platform ''dir/notes.md'' = Some ''# hi''"
    by (simp add: notes_platform_def)
  have ls: "fst (api_list_documents_in_folder accepting_api ''fld'' (fst (0::nat, ([]::call list)))) =
      Inr [\<lparr>name = Some ''other'', token = Some ''t0''\<rparr>,
           \<lparr>name = Some ''notes'', token = Some ''t1''\<rparr>]"
    by (simp add: accepting_api_def)
  have st: "path_stem notes_platform ''dir/notes.md'' = ''notes''"
    by (simp add: notes_platform_def)
  have run: "write_file accepting_api notes_platform ''dir/notes.md'' ''folder'' (Some ''fld'') None True (0, []) =
     (Inr \<lparr>success = False, document_id = None,
           message = MessageText ''duplicate:t1:notes'',
           existing_doc = Some \<lparr>name = Some ''notes'', token = Some ''t1''\<rparr>,
           node_token = None, uploaded_images = None\<rparr>,
      (1, [ListDocumentsInFolder ''fld'']))"
    by code_simp
  from duplicate_short_circuits [of notes_platform "''dir/notes.md''" "''# hi''" accepting_api
      "CHR ''f''" "''ld''" "(0, [])"
      "[\<lparr>name = Some ''other'', token = Some ''t0''\<rparr>, \<lparr>name = Some ''notes'', token = Some ''t1''\<rparr>]"
      "''folder''" None] rd ls st run
  show ?thesis by simp
qed

section \<open>The asset cache\<close>

text \<open>
  \<^verbatim>\<open>download_from_url\<close> in \<^verbatim>\<open>uploader.py\<close>. The library functions it calls are parameters:
  \<open>url_path\<close> is \<^verbatim>\<open>urlparse(url).path\<close> (\<open>None\<close> when it raises) and \<open>md5_hexdigest\<close> is the
  hexadecimal MD5 digest of the URL. \<^verbatim>\<open>os.path.splitext\<close> is modelled for POSIX paths: the
  extension starts at the last dot of the last component, unless only dots stand before
  it in that component.
\<close>

record url_library =
  url_path :: "string \<Rightarrow> string option"
  md5_hexdigest :: "string \<Rightarrow> string"

definition basename_of :: "string \<Rightarrow> string" where
  "basename_of p = rev (takeWhile (\<lambda>c. c \<noteq> CHR ''/'') (rev p))"

definition splitext_ext :: "string \<Rightarrow> string" where
  "splitext_ext p =
     (let base = basename_of p;
          tail = takeWhile (\<lambda>c. c \<noteq> CHR ''.'') (rev base)
      in if length tail = length base then []
         else if list_all (\<lambda>c. c = CHR ''.'') (take (length base - length tail - 1) base) then []
         else CHR ''.'' # rev tail)"

definition image_exts :: "string list" where
  "image_exts = [''.jpg'', ''.jpeg'', ''.png'', ''.gif'', ''.webp'', ''.bmp'', ''.svg'']"

definition ext_map :: "(string \<times> string) list" where
  "ext_map = [(''jpeg'', ''.jpg''), (''jpg'', ''.jpg''), (''png'', ''.png''),
              (''gif'', ''.gif''), (''webp'', ''.webp''), (''bmp'', ''.bmp'')]"

text \<open>
  \<^verbatim>\<open>s.split(pat)[-1]\<close> when \<open>pat\<close> occurs in \<open>s\<close>: the text after the last occurrence (the
  pattern used here cannot overlap itself). \<open>None\<close> when \<open>pat\<close> does not occur.
\<close>

fun after_last :: "string \<Rightarrow> string \<Rightarrow> string option" where
  "after_last pat [] = None"
| "after_last pat (c # cs) =
     (case after_last pat cs of
        Some r \<Rightarrow> Some r
      | None \<Rightarrow> if startswith (c # cs) pat then Some (drop (length pat) (c # cs)) else None)"

definition derive_ext :: "url_library \<Rightarrow> string \<Rightarrow> string option" where
  "derive_ext lib url =
     (case url_path lib url of
        None \<Rightarrow> None
      | Some p \<Rightarrow>
          Some (let ext = splitext_ext p
                in if ext = [] \<or> lower ext \<notin> set image_exts then
                     (case after_last ''wx_fmt='' url of
                        Some r \<Rightarrow>
                          (case map_of ext_map (takeWhile (\<lambda>c. c \<noteq> CHR ''&'') r) of
                             Some e \<Rightarrow> e
                           | None \<Rightarrow> ''.jpg'')
                      | None \<Rightarrow> ''.jpg'')
                   else ext))"

definition cache_filename :: "url_library \<Rightarrow> string \<Rightarrow> string option" where
  "cache_filename lib url =
     (case derive_ext lib url of
        None \<Rightarrow> None
      | Some ext \<Rightarrow> Some (''img_'' @ take 12 (md5_hexdigest lib url) @ ext))"

text \<open>
  The state the resolver works on: the files of the cache directory (name and bytes,
  the newest first), the state of the network, and the URLs fetched so far. A fetch
  gives \<open>None\<close> when \<^verbatim>\<open>requests.get\<close> or \<^verbatim>\<open>raise_for_status\<close> raises; every exception is
  caught and gives the result \<open>None\<close>. Writing the file is taken to succeed.
\<close>

record 'n resolver_state =
  cache_files :: "(string \<times> string) list"
  network :: 'n
  fetched :: "string list"

definition download_from_url ::
  "url_library \<Rightarrow> (string \<Rightarrow> 'n \<Rightarrow> string option \<times> 'n) \<Rightarrow> string \<Rightarrow> 'n resolver_state \<Rightarrow>
   string option \<times> 'n resolver_state" where
  "download_from_url lib fetch url st =
     (case cache_filename lib url of
        None \<Rightarrow> (None, st)
      | Some filename \<Rightarrow>
          if filename \<in> set (map fst (cache_files st)) then (Some filename, st)
          else (case fetch url (network st) of
                  (None, n') \<Rightarrow> (None, st\<lparr>network := n', fetched := fetched st @ [url]\<rparr>)
                | (Some bytes, n') \<Rightarrow>
                    (Some filename,
                     st\<lparr>cache_files := (filename, bytes) # cache_files st,
                        network := n', fetched := fetched st @ [url]\<rparr>)))"

lemma derive_ext_image:
  assumes "derive_ext lib url = Some ext"
  shows "lower ext \<in> set image_exts"
proof -
  from assms obtain p where p: "url_path lib url = Some p"
    by (auto simp: derive_ext_def split: option.splits)
  let ?e = "splitext_ext p"
  show ?thesis
  proof (cases "?e = [] \<or> lower ?e \<notin> set image_exts")
    case False
    with assms p show ?thesis by (auto simp: derive_ext_def Let_def)
  next
    case True
    have vals: "\<And>k e. map_of ext_map k = Some e \<Longrightarrow> lower e \<in> set image_exts"
      by (auto simp: ext_map_def image_exts_def lower_def lower_char_def split: if_splits)
    have dflt: "lower ''.jpg'' \<in> set image_exts"
      by (simp add: image_exts_def lower_def lower_char_def)
    from True assms p have "ext = (case after_last ''wx_fmt='' url of
                        Some r \<Rightarrow>
                          (case map_of ext_map (takeWhile (\<lambda>c. c \<noteq> CHR ''&'') r) of
                             Some e \<Rightarrow> e
                           | None \<Rightarrow> ''.jpg'')
                      | None \<Rightarrow> ''.jpg'')"
      by (auto simp: derive_ext_def Let_def)
    with vals dflt show ?thesis by (auto split: option.splits)
  qed
qed

lemma lower_Nil_no_image: "lower [] \<notin> set image_exts"
  by (simp add: lower_def image_exts_def)

lemma cache_filename_cases:
  assumes "url_path lib url = Some p"
  shows "cache_filename lib url =
     Some (''img_'' @ take 12 (md5_hexdigest lib url) @
       (if lower (splitext_ext p) \<in> set image_exts then splitext_ext p
        else (case after_last ''wx_fmt='' url of
                Some r \<Rightarrow>
                  (case map_of ext_map (takeWhile (\<lambda>c. c \<noteq> CHR ''&'') r) of
                     Some e \<Rightarrow> e
                   | None \<Rightarrow> ''.jpg'')
              | None \<Rightarrow> ''.jpg'')))"
proof (cases "splitext_ext p = []")
  case True
  with assms lower_Nil_no_image show ?thesis
    by (simp add: cache_filename_def derive_ext_def)
next
  case False
  with assms show ?thesis
    by (simp add: cache_filename_def derive_ext_def Let_def)
qed

lemma basename_of_last:
  assumes "CHR ''/'' \<notin> set base"
  shows "basename_of (dir @ CHR ''/'' # base) = base"
proof -
  have "takeWhile (\<lambda>c. c \<noteq> CHR ''/'') (rev base @ CHR ''/'' # rev dir) = rev base"
    using assms by (auto simp: takeWhile_tail)
  then show ?thesis by (simp add: basename_of_def)
qed

lemma splitext_ext_of_base:
  assumes base: "basename_of p = stem @ CHR ''.'' # e"
    and e: "CHR ''.'' \<notin> set e" and stem: "\<not> list_all (\<lambda>c. c = CHR ''.'') stem"
  shows "splitext_ext p = CHR ''.'' # e"
proof -
  have "takeWhile (\<lambda>c. c \<noteq> CHR ''.'') (rev e @ CHR ''.'' # rev stem) = rev e"
    using e by (auto simp: takeWhile_tail)
  with base stem show ?thesis
    by (simp add: splitext_ext_def Let_def)
qed

lemma splitext_ext_path:
  assumes "CHR ''/'' \<notin> set stem" "CHR ''/'' \<notin> set e" "CHR ''.'' \<notin> set e"
    and "\<not> list_all (\<lambda>c. c = CHR ''.'') stem"
  shows "splitext_ext (dir @ CHR ''/'' # stem @ CHR ''.'' # e) = CHR ''.'' # e"
proof -
  from assms(1,2) have "CHR ''/'' \<notin> set (stem @ CHR ''.'' # e)" by simp
  from basename_of_last [OF this, of dir]
  have "basename_of (dir @ CHR ''/'' # stem @ CHR ''.'' # e) = stem @ CHR ''.'' # e" .
  from splitext_ext_of_base [OF this assms(3,4)] show ?thesis .
qed

text \<open>
  Claim C8, amended. The name of the cached file is \<^verbatim>\<open>img_\<close>, the first twelve digits
  of the digest of the URL and an extension: the extension of the URL path when that is,
  in lower case, an image extension (for a last component \<open>stem.e\<close> it is \<open>.e\<close>), else
  the one the format hint \<^verbatim>\<open>wx_fmt=\<close> maps to, else \<^verbatim>\<open>.jpg\<close>. When a file of that name
  is in the cache, the resolution returns it and leaves the state as it is: no fetch.
  When it is not and the fetch succeeds, the resolution fetches once and stores the
  file, and a second resolution of the same URL returns the same file without a fetch:
  exactly one fetch for the two. When the fetch fails, nothing is stored and the result
  is \<^verbatim>\<open>None\<close>.
\<close>

theorem cached_url_is_fetched_once:
  "(url_path lib url = Some path \<longrightarrow>
      cache_filename lib url =
        Some (''img_'' @ take 12 (md5_hexdigest lib url) @
          (if lower (splitext_ext path) \<in> set image_exts then splitext_ext path
           else (case after_last ''wx_fmt='' url of
                   Some r \<Rightarrow>
                     (case map_of ext_map (takeWhile (\<lambda>c. c \<noteq> CHR ''&'') r) of
                        Some e \<Rightarrow> e
                      | None \<Rightarrow> ''.jpg'')
                 | None \<Rightarrow> ''.jpg'')))) \<and>
   (CHR ''/'' \<notin> set stem \<and> CHR ''/'' \<notin> set e \<and> CHR ''.'' \<notin> set e \<and>
    \<not> list_all (\<lambda>c. c = CHR ''.'') stem \<longrightarrow>
      splitext_ext (dir @ CHR ''/'' # stem @ CHR ''.'' # e) = CHR ''.'' # e) \<and>
   (cache_filename lib url = Some f \<longrightarrow>
      (\<exists>ext. f = ''img_'' @ take 12 (md5_hexdigest lib url) @ ext \<and>
             lower ext \<in> set image_exts)) \<and>
   (cache_filename lib url = None \<longrightarrow> download_from_url lib fetch url st = (None, st)) \<and>
   (cache_filename lib url = Some f \<and> f \<in> set (map fst (cache_files st)) \<longrightarrow>
      download_from_url lib fetch url st = (Some f, st)) \<and>
   (cache_filename lib url = Some f \<and> f \<notin> set (map fst (cache_files st)) \<and>
    fetch url (network st) = (Some bytes, n') \<longrightarrow>
      download_from_url lib fetch url st =
        (Some f, st\<lparr>cache_files := (f, bytes) # cache_files st, network := n',
                     fetched := fetched st @ [url]\<rparr>) \<and>
      download_from_url lib fetch url (snd (download_from_url lib fetch url st)) =
        (Some f, snd (download_from_url lib fetch url st)) \<and>
      fetched (snd (download_from_url lib fetch url
                 (snd (download_from_url lib fetch url st)))) = fetched st @ [url]) \<and>
   (cache_filename lib url = Some f \<and> f \<notin> set (map fst (cache_files st)) \<and>
    fetch url (network st) = (None, n') \<longrightarrow>
      download_from_url lib fetch url st =
        (None, st\<lparr>network := n', fetched := fetched st @ [url]\<rparr>)) \<and>
   (download_from_url lib fetch url st = (Some p, st1) \<longrightarrow>
      download_from_url lib fetch url st1 = (Some p, st1) \<and>
      fetched st1 = fetched st @ (if p \<in> set (map fst (cache_files st)) then [] else [url]))"
proof -
  have name: "url_path lib url = Some path \<longrightarrow>
      cache_filename lib url =
        Some (''img_'' @ take 12 (md5_hexdigest lib url) @
          (if lower (splitext_ext path) \<in> set image_exts then splitext_ext path
           else (case after_last ''wx_fmt='' url of
                   Some r \<Rightarrow>
                     (case map_of ext_map (takeWhile (\<lambda>c. c \<noteq> CHR ''&'') r) of
                        Some e \<Rightarrow> e
                      | None \<Rightarrow> ''.jpg'')
                 | None \<Rightarrow> ''.jpg'')))"
    using cache_filename_cases [of lib url path] by blast
  have ext: "CHR ''/'' \<notin> set stem \<and> CHR ''/'' \<notin> set e \<and> CHR ''.'' \<notin> set e \<and>
    \<not> list_all (\<lambda>c. c = CHR ''.'') stem \<longrightarrow>
      splitext_ext (dir @ CHR ''/'' # stem @ CHR ''.'' # e) = CHR ''.'' # e"
    using splitext_ext_path [of stem e dir] by blast
  have a: "cache_filename lib url = Some f \<longrightarrow>
      (\<exists>ext. f = ''img_'' @ take 12 (md5_hexdigest lib url) @ ext \<and>
             lower ext \<in> set image_exts)"
    using derive_ext_image [of lib url]
    by (auto simp: cache_filename_def split: option.splits)
  have none: "cache_filename lib url = None \<longrightarrow> download_from_url lib fetch url st = (None, st)"
    by (simp add: download_from_url_def)
  have hit: "cache_filename lib url = Some f \<and> f \<in> set (map fst (cache_files st)) \<longrightarrow>
      download_from_url lib fetch url st = (Some f, st)"
    by (simp add: download_from_url_def)
  have miss_ok': "download_from_url lib fetch url st =
        (Some f, st\<lparr>cache_files := (f, bytes) # cache_files st, network := n',
                     fetched := fetched st @ [url]\<rparr>) \<and>
      download_from_url lib fetch url (snd (download_from_url lib fetch url st)) =
        (Some f, snd (download_from_url lib fetch url st)) \<and>
      fetched (snd (download_from_url lib fetch url
                 (snd (download_from_url lib fetch url st)))) = fetched st @ [url]"
    if fn: "cache_filename lib url = Some f" and nc: "f \<notin> set (map fst (cache_files st))"
      and ft: "fetch url (network st) = (Some bytes, n')"
  proof -
    let ?st1 = "st\<lparr>cache_files := (f, bytes) # cache_files st, network := n',
                     fetched := fetched st @ [url]\<rparr>"
    from fn nc ft have first: "download_from_url lib fetch url st = (Some f, ?st1)"
      by (simp add: download_from_url_def)
    from fn have second: "download_from_url lib fetch url ?st1 = (Some f, ?st1)"
      by (simp add: download_from_url_def)
    from first second show ?thesis by simp
  qed
  then have miss_ok: "cache_filename lib url = Some f \<and> f \<notin> set (map fst (cache_files st)) \<and>
    fetch url (network st) = (Some bytes, n') \<longrightarrow>
      download_from_url lib fetch url st =
        (Some f, st\<lparr>cache_files := (f, bytes) # cache_files st, network := n',
                     fetched := fetched st @ [url]\<rparr>) \<and>
      download_from_url lib fetch url (snd (download_from_url lib fetch url st)) =
        (Some f, snd (download_from_url lib fetch url st)) \<and>
      fetched (snd (download_from_url lib fetch url
                 (snd (download_from_url lib fetch url st)))) = fetched st @ [url]"
    by blast
  have miss_fail: "cache_filename lib url = Some f \<and> f \<notin> set (map fst (cache_files st)) \<and>
    fetch url (network st) = (None, n') \<longrightarrow>
      download_from_url lib fetch url st =
        (None, st\<lparr>network := n', fetched := fetched st @ [url]\<rparr>)"
    by (simp add: download_from_url_def)
  have c': "download_from_url lib fetch url st1 = (Some p, st1) \<and>
      fetched st1 = fetched st @ (if p \<in> set (map fst (cache_files st)) then [] else [url])"
    if run: "download_from_url lib fetch url st = (Some p, st1)"
  proof -
    from run obtain filename where fn: "cache_filename lib url = Some filename"
      by (auto simp: download_from_url_def split: option.splits)
    show ?thesis
    proof (cases "filename \<in> set (map fst (cache_files st))")
      case True
      with run fn have "p = filename" "st1 = st" by (simp_all add: download_from_url_def)
      with True fn show ?thesis by (simp add: download_from_url_def)
    next
      case False
      obtain r n1 where ft: "fetch url (network st) = (r, n1)"
        by (cases "fetch url (network st)") auto
      with run fn False obtain b where r: "r = Some b"
        by (cases r) (auto simp: download_from_url_def)
      with run fn False ft have "p = filename"
        and st1: "st1 = st\<lparr>cache_files := (filename, b) # cache_files st,
                        network := n1, fetched := fetched st @ [url]\<rparr>"
        by (auto simp: download_from_url_def)
      with fn False show ?thesis by (simp add: download_from_url_def)
    qed
  qed
  then have c: "download_from_url lib fetch url st = (Some p, st1) \<longrightarrow>
      download_from_url lib fetch url st1 = (Some p, st1) \<and>
      fetched st1 = fetched st @ (if p \<in> set (map fst (cache_files st)) then [] else [url])"
    by blast
  show ?thesis
    by (rule conjI [OF name conjI [OF ext conjI [OF a conjI [OF none conjI [OF hit
          conjI [OF miss_ok conjI [OF miss_fail c]]]]]]])
qed

text \<open>
  A library, and two networks, for the examples. The path of a plain
  \<^verbatim>\<open>scheme://host/path?query\<close> address is what stands from the first slash after the host
  up to the query or the fragment; the digest is a fixed one.
\<close>

definition sample_url_path :: "string \<Rightarrow> string" where
  "sample_url_path url =
     takeWhile (\<lambda>c. c \<noteq> CHR ''?'' \<and> c \<noteq> CHR ''#'')
       (dropWhile (\<lambda>c. c \<noteq> CHR ''/'') (drop 2 (dropWhile (\<lambda>c. c \<noteq> CHR ''/'') url)))"

definition sample_library :: url_library where
  "sample_library =
     \<lparr>url_path = (\<lambda>url. Some (sample_url_path url)),
      md5_hexdigest = (\<lambda>url. ''0123456789abcdef0123456789abcdef'')\<rparr>"

definition sample_fetch :: "string \<Rightarrow> nat \<Rightarrow> string option \<times> nat" where
  "sample_fetch url n = (Some ''bytes'', Suc n)"

definition failing_fetch :: "string \<Rightarrow> nat \<Rightarrow> string option \<times> nat" where
  "failing_fetch url n = (None, Suc n)"

text \<open>
  The claim C8 as stated fails when the fetch fails: nothing is cached, and the second
  resolution of the same address fetches again, two fetches for the two resolutions. It
  also fails when the file is in the cache before the first resolution: no fetch at all.
\<close>

theorem failed_fetch_is_repeated_counterexample:
  "download_from_url sample_library failing_fetch ''https://h/pics/cat.gif''
      \<lparr>cache_files = [], network = 0, fetched = []\<rparr> =
     (None, \<lparr>cache_files = [], network = 1, fetched = [''https://h/pics/cat.gif'']\<rparr>) \<and>
   download_from_url sample_library failing_fetch ''https://h/pics/cat.gif''
      \<lparr>cache_files = [], network = 1, fetched = [''https://h/pics/cat.gif'']\<rparr> =
     (None, \<lparr>cache_files = [], network = 2,
             fetched = [''https://h/pics/cat.gif'', ''https://h/pics/cat.gif'']\<rparr>) \<and>
   download_from_url sample_library sample_fetch ''https://h/pics/cat.gif''
      \<lparr>cache_files = [(''img_0123456789ab.gif'', ''old'')], network = 0, fetched = []\<rparr> =
     (Some ''img_0123456789ab.gif'',
      \<lparr>cache_files = [(''img_0123456789ab.gif'', ''old'')], network = 0, fetched = []\<rparr>)"
  by code_simp

theorem cached_url_is_fetched_once_witness:
  "cache_filename sample_library ''https://h/pics/cat.gif?wx_fmt=png'' =
     Some ''img_0123456789ab.gif'' \<and>
   splitext_ext (''/pics'' @ CHR ''/'' # ''cat'' @ CHR ''.'' # ''gif'') = ''.gif'' \<and>
   download_from_url sample_library sample_fetch ''https://h/pics/cat.gif?wx_fmt=png''
      \<lparr>cache_files = [], network = 0, fetched = []\<rparr> =
     (Some ''img_0123456789ab.gif'',
      \<lparr>cache_files = [(''img_0123456789ab.gif'', ''bytes'')], network = 1,
       fetched = [''https://h/pics/cat.gif?wx_fmt=png'']\<rparr>) \<and>
   download_from_url sample_library sample_fetch ''https://h/pics/cat.gif?wx_fmt=png''
      \<lparr>cache_files = [(''img_0123456789ab.gif'', ''bytes'')], network = 1,
       fetched = [''https://h/pics/cat.gif?wx_fmt=png'']\<rparr> =
     (Some ''img_0123456789ab.gif'',
      \<lparr>cache_files = [(''img_0123456789ab.gif'', ''bytes'')], network = 1,
       fetched = [''https://h/pics/cat.gif?wx_fmt=png'']\<rparr>)"
proof -
  have path: "url_path sample_library ''https://h/pics/cat.gif?wx_fmt=png'' = Some ''/pics/cat.gif''"
    by code_simp
  have inl: "lower (splitext_ext ''/pics/cat.gif'') \<in> set image_exts"
    by code_simp
  have sx: "splitext_ext ''/pics/cat.gif'' = ''.gif''"
    by code_simp
  have parts: "CHR ''/'' \<notin> set ''cat'' \<and> CHR ''/'' \<notin> set ''gif'' \<and> CHR ''.'' \<notin> set ''gif'' \<and>
      \<not> list_all (\<lambda>c. c = CHR ''.'') ''cat''"
    by simp
  have nc: "''img_0123456789ab.gif'' \<notin>
      set (map fst (cache_files \<lparr>cache_files = [], network = 0::nat, fetched = []\<rparr>))"
    by simp
  have ft: "sample_fetch ''https://h/pics/cat.gif?wx_fmt=png''
      (network \<lparr>cache_files = [], network = 0::nat, fetched = []\<rparr>) = (Some ''bytes'', 1)"
    by (simp add: sample_fetch_def)
  have md: "take 12 (md5_hexdigest sample_library ''https://h/pics/cat.gif?wx_fmt=png'') =
      ''0123456789ab''"
    by (simp add: sample_library_def)
  note T = cached_url_is_fetched_once [where lib = sample_library
      and url = "''https://h/pics/cat.gif?wx_fmt=png''" and path = "''/pics/cat.gif''"
      and stem = "''cat''" and e = "''gif''" and dir = "''/pics''"
      and f = "''img_0123456789ab.gif''"
      and st = "\<lparr>cache_files = [], network = 0::nat, fetched = []\<rparr>"
      and fetch = sample_fetch and bytes = "''bytes''" and n' = 1]
  note c1 = T [THEN conjunct1]
  note c2 = T [THEN conjunct2, THEN conjunct1]
  note c6 = T [THEN conjunct2, THEN conjunct2, THEN conjunct2, THEN conjunct2, THEN conjunct2,
               THEN conjunct1]
  have fn: "cache_filename sample_library ''https://h/pics/cat.gif?wx_fmt=png'' =
     Some ''img_0123456789ab.gif''"
    using c1 path inl sx md by simp
  have sp: "splitext_ext (''/pics'' @ CHR ''/'' # ''cat'' @ CHR ''.'' # ''gif'') = ''.gif''"
    using c2 parts by simp
  from c6 fn nc ft
  have first: "download_from_url sample_library sample_fetch ''https://h/pics/cat.gif?wx_fmt=png''
      \<lparr>cache_files = [], network = 0, fetched = []\<rparr> =
     (Some ''img_0123456789ab.gif'',
      \<lparr>cache_files = [(''img_0123456789ab.gif'', ''bytes'')], network = 1,
       fetched = [''https://h/pics/cat.gif?wx_fmt=png'']\<rparr>)"
    by simp
  note c5 = cached_url_is_fetched_once [where lib = sample_library
      and url = "''https://h/pics/cat.gif?wx_fmt=png''"
      and f = "''img_0123456789ab.gif''"
      and st = "\<lparr>cache_files = [(''img_0123456789ab.gif'', ''bytes'')], network = 1::nat,
                 fetched = [''https://h/pics/cat.gif?wx_fmt=png'']\<rparr>"
      and fetch = sample_fetch,
      THEN conjunct2, THEN conjunct2, THEN conjunct2, THEN conjunct2, THEN conjunct1]
  from c5 fn
  have second: "download_from_url sample_library sample_fetch ''https://h/pics/cat.gif?wx_fmt=png''
      \<lparr>cache_files = [(''img_0123456789ab.gif'', ''bytes'')], network = 1,
       fetched = [''https://h/pics/cat.gif?wx_fmt=png'']\<rparr> =
     (Some ''img_0123456789ab.gif'',
      \<lparr>cache_files = [(''img_0123456789ab.gif'', ''bytes'')], network = 1,
       fetched = [''https://h/pics/cat.gif?wx_fmt=png'']\<rparr>)"
    by simp
  from fn sp first second show ?thesis by (intro conjI)
qed

end
